theory Spec2Isabelle
  imports Main "HOL-Library.Word" "HOL-Library.Monad_Syntax"
begin

unbundle bit_operations_syntax

section \<open>The arena: bytes, little-endian integers, checked writes\<close>

text \<open>
  The log lives in \<^verbatim>\<open>static char log_buf[LOG_BUF_LEN]\<close>. The buffer is modelled
  byte by byte, since the code reads a \<^verbatim>\<open>size_t\<close> back from whatever offset an
  index points at. Integers are stored little-endian, with the sizes of the LP64 ABI
  of x86-64. The header that defines \<^verbatim>\<open>LOG_BUF_LEN\<close> is not part of the sources at
  hand, so the capacity is a parameter \<open>L\<close> of every operation.

  A read returns whatever the memory holds at that address. A write that does not lie
  inside \<open>[0, L)\<close> has no defined behaviour in C: \<open>arena_write\<close> returns \<open>None\<close>.
\<close>

type_synonym byte = "8 word"
type_synonym mem = "nat \<Rightarrow> byte"

definition mem_read :: "mem \<Rightarrow> nat \<Rightarrow> nat \<Rightarrow> byte list" where
  "mem_read m a n = map m [a..<a + n]"

definition mem_write :: "mem \<Rightarrow> nat \<Rightarrow> byte list \<Rightarrow> mem" where
  "mem_write m a bs = (\<lambda>i. if a \<le> i \<and> i < a + length bs then bs ! (i - a) else m i)"

definition arena_write :: "nat \<Rightarrow> mem \<Rightarrow> nat \<Rightarrow> byte list \<Rightarrow> mem option" where
  "arena_write L m a bs = (if a + length bs \<le> L then Some (mem_write m a bs) else None)"

fun le_enc :: "nat \<Rightarrow> nat \<Rightarrow> byte list" where
  "le_enc 0 n = []"
| "le_enc (Suc k) n = of_nat n # le_enc k (n div 256)"

fun le_dec :: "byte list \<Rightarrow> nat" where
  "le_dec [] = 0"
| "le_dec (b # bs) = unat b + 256 * le_dec bs"

definition u32 :: "nat \<Rightarrow> nat" where
  "u32 n = n mod 2 ^ 32"

definition sub_u32 :: "nat \<Rightarrow> nat \<Rightarrow> nat" where
  \<comment> \<open>\<open>a - b\<close> in \<^verbatim>\<open>u32\<close> arithmetic, for \<open>a\<close> and \<open>b\<close> below \<open>2 ^ 32\<close>\<close>
  "sub_u32 a b = (a + 2 ^ 32 - b) mod 2 ^ 32"

definition INT_MAX :: nat where
  "INT_MAX = 2 ^ 31 - 1"

section \<open>The record layout\<close>

text \<open>
  \<^verbatim>\<open>struct netlog_log\<close>: two \<^verbatim>\<open>size_t\<close>, a \<^verbatim>\<open>u64\<close>, \<^verbatim>\<open>pid_t\<close>, \<^verbatim>\<open>uid_t\<close>, two \<^verbatim>\<open>u8\<close>,
  an \<^verbatim>\<open>unsigned short\<close>, two \<^verbatim>\<open>int\<close> and two 16-byte unions; 76 bytes of fields, 80
  with the padding to the alignment of 8. The path follows the header.
\<close>

definition sizeof_size_t :: nat where "sizeof_size_t = 8"
definition sizeof_netlog_log :: nat where "sizeof_netlog_log = 80"
definition LOG_ALIGN :: nat where "LOG_ALIGN = 8"

definition off_len :: nat where "off_len = 0"
definition off_path_len :: nat where "off_path_len = 8"
definition off_nsec :: nat where "off_nsec = 16"
definition off_pid :: nat where "off_pid = 24"
definition off_uid :: nat where "off_uid = 28"
definition off_action :: nat where "off_action = 32"
definition off_protocol :: nat where "off_protocol = 33"
definition off_family :: nat where "off_family = 34"
definition off_src_port :: nat where "off_src_port = 36"
definition off_dst_port :: nat where "off_dst_port = 40"
definition off_dst :: nat where "off_dst = 44"
definition off_src :: nat where "off_src = 60"

definition AF_INET :: nat where "AF_INET = 2"
definition AF_INET6 :: nat where "AF_INET6 = 10"

record netlog_log =
  len :: nat
  path_len :: nat
  nsec :: nat
  pid :: nat
  uid :: nat
  action :: nat
  protocol :: nat
  family :: nat
  src_port :: nat
  dst_port :: nat
  dst :: "byte list"
  src :: "byte list"

definition load_size_t :: "mem \<Rightarrow> nat \<Rightarrow> nat" where
  "load_size_t m a = le_dec (mem_read m a sizeof_size_t)"

definition load_record :: "mem \<Rightarrow> nat \<Rightarrow> netlog_log" where
  \<comment> \<open>\<^verbatim>\<open>(struct netlog_log*)(log_buf + idx)\<close>, field by field\<close>
  "load_record m idx =
     \<lparr> len = load_size_t m (idx + off_len),
       path_len = load_size_t m (idx + off_path_len),
       nsec = le_dec (mem_read m (idx + off_nsec) 8),
       pid = le_dec (mem_read m (idx + off_pid) 4),
       uid = le_dec (mem_read m (idx + off_uid) 4),
       action = le_dec (mem_read m (idx + off_action) 1),
       protocol = le_dec (mem_read m (idx + off_protocol) 1),
       family = le_dec (mem_read m (idx + off_family) 2),
       src_port = le_dec (mem_read m (idx + off_src_port) 4),
       dst_port = le_dec (mem_read m (idx + off_dst_port) 4),
       dst = mem_read m (idx + off_dst) 16,
       src = mem_read m (idx + off_src) 16 \<rparr>"

definition log_path :: "nat \<Rightarrow> nat" where
  \<comment> \<open>the address of the path of the record at \<open>idx\<close>\<close>
  "log_path idx = idx + sizeof_netlog_log"

section \<open>The store\<close>

text \<open>
  The globals of the log: the buffer, the index and sequence number of the first record
  stored, those of the next record to store, and the \<^verbatim>\<open>first_read\<close> flag. Sequence
  numbers are \<^verbatim>\<open>u64\<close>; indices are \<^verbatim>\<open>u32\<close>, kept as naturals with the reduction modulo
  \<open>2 ^ 32\<close> written wherever the code stores into one.
\<close>

record store =
  log_buf :: mem
  log_first_seq :: "64 word"
  log_first_idx :: nat
  log_next_seq :: "64 word"
  log_next_idx :: nat
  first_read :: bool

definition init_store :: store where
  "init_store = \<lparr> log_buf = (\<lambda>_. 0), log_first_seq = 0, log_first_idx = 0,
                  log_next_seq = 0, log_next_idx = 0, first_read = True \<rparr>"

definition next_record :: "mem \<Rightarrow> nat \<Rightarrow> nat" where
  "next_record m idx =
     (let l = load_size_t m idx in
      if l = 0 then 0 else u32 (idx + l))"

section \<open>Appending: \<^verbatim>\<open>store_record\<close>\<close>

text \<open>
  The arguments of one call of \<^verbatim>\<open>store_record\<close>. A pointer to a C string is the list of
  the bytes found at it (the string ends at the first NUL, or with the list); an address
  pointer is \<open>None\<close> for \<^verbatim>\<open>NULL\<close>. \<open>ev_clock\<close> is what \<^verbatim>\<open>local_clock()\<close> returns
  during the call.
\<close>

record event =
  ev_pid :: "32 word"
  ev_uid :: "32 word"
  ev_path :: "byte list"
  ev_action :: byte
  ev_protocol :: byte
  ev_family :: "16 word"
  ev_src_ip :: "byte list option"
  ev_src_port :: "32 word"
  ev_dst_ip :: "byte list option"
  ev_dst_port :: "32 word"
  ev_clock :: "64 word"

datatype notice = Warning_troncating_path

definition strlen :: "byte list \<Rightarrow> nat" where
  "strlen p = length (takeWhile (\<lambda>b. b \<noteq> 0) p)"

definition path_threshold :: "nat \<Rightarrow> nat" where
  \<comment> \<open>\<^verbatim>\<open>min((LOG_BUF_LEN >> 4), INT_MAX)\<close>\<close>
  "path_threshold L = min (L div 16) INT_MAX"

definition truncating :: "nat \<Rightarrow> nat \<Rightarrow> bool" where
  "truncating L n = (n > L div 16 \<or> n > INT_MAX)"

definition stored_path_len :: "nat \<Rightarrow> byte list \<Rightarrow> nat" where
  "stored_path_len L p =
     (if truncating L (strlen p) then path_threshold L else strlen p)"

definition align_up :: "nat \<Rightarrow> nat" where
  \<comment> \<open>\<^verbatim>\<open>record_size += (-record_size) & (LOG_ALIGN - 1)\<close>, the negation in \<^verbatim>\<open>size_t\<close>\<close>
  "align_up n = n + unat ((- (of_nat n :: 64 word)) AND (of_nat LOG_ALIGN - 1))"

definition record_size :: "nat \<Rightarrow> byte list \<Rightarrow> nat" where
  "record_size L p = align_up (sizeof_netlog_log + stored_path_len L p + 1)"

definition log_free :: "nat \<Rightarrow> store \<Rightarrow> nat" where
  "log_free L s =
     (if log_next_idx s > log_first_idx s
      then max (sub_u32 L (log_next_idx s)) (log_first_idx s)
      else sub_u32 (log_first_idx s) (log_next_idx s))"

definition drop_first :: "store \<Rightarrow> store" where
  \<comment> \<open>the body of the loop, past the \<^verbatim>\<open>break\<close>\<close>
  "drop_first s =
     s\<lparr> log_first_idx := next_record (log_buf s) (log_first_idx s),
        log_first_seq := log_first_seq s + 1 \<rparr>"

function drop_old :: "nat \<Rightarrow> nat \<Rightarrow> store \<Rightarrow> store" where
  "drop_old L rs s =
     (if log_first_seq s < log_next_seq s then
        (if log_free L s > rs + sizeof_size_t then s
         else drop_old L rs (drop_first s))
      else s)"
  by pat_completeness auto
termination
proof (relation "measure (\<lambda>(L, rs, s). unat (log_next_seq s) - unat (log_first_seq s))")
  show "wf (measure (\<lambda>(L, rs, s). unat (log_next_seq s) - unat (log_first_seq s)))"
    by simp
next
  fix L rs :: nat and s :: store
  assume lt: "log_first_seq s < log_next_seq s"
  then have "unat (log_first_seq s) < unat (log_next_seq s)"
    by (simp add: word_less_nat_alt)
  moreover have "unat (log_first_seq s + 1) = unat (log_first_seq s) + 1"
  proof -
    have "unat (log_next_seq s) < 2 ^ LENGTH(64)"
      by (rule unsigned_less)
    with \<open>unat (log_first_seq s) < unat (log_next_seq s)\<close>
    have "unat (log_first_seq s) + unat (1 :: 64 word) < 2 ^ LENGTH(64)"
      by simp
    then show ?thesis
      by (simp only: unat_add_lem [THEN iffD1] unat_1)
  qed
  ultimately show "((L, rs, drop_first s), (L, rs, s))
      \<in> measure (\<lambda>(L, rs, s). unat (log_next_seq s) - unat (log_first_seq s))"
    by (simp add: drop_first_def)
qed

definition copy_ip :: "nat \<Rightarrow> mem \<Rightarrow> nat \<Rightarrow> byte list \<Rightarrow> nat \<Rightarrow> mem option" where
  "copy_ip L m d ip fam =
     (if fam = AF_INET then arena_write L m d (take 4 ip)
      else if fam = AF_INET6 then arena_write L m d (take 16 ip)
      else Some m)"

definition store_ip :: "nat \<Rightarrow> mem \<Rightarrow> nat \<Rightarrow> byte list option \<Rightarrow> nat \<Rightarrow> mem option" where
  "store_ip L m d ip fam =
     (case ip of
        None \<Rightarrow> arena_write L m d (replicate 16 0)
      | Some a \<Rightarrow> copy_ip L m d a fam)"

definition fill_record :: "nat \<Rightarrow> mem \<Rightarrow> nat \<Rightarrow> nat \<Rightarrow> nat \<Rightarrow> event \<Rightarrow> mem option" where
  \<comment> \<open>the stores through \<^verbatim>\<open>record\<close>, in the order of the source\<close>
  "fill_record L m0 r rs plen e =
     do {
       m1 \<leftarrow> arena_write L m0 (r + off_len) (le_enc sizeof_size_t rs);
       m2 \<leftarrow> arena_write L m1 (r + off_path_len) (le_enc sizeof_size_t plen);
       m3 \<leftarrow> arena_write L m2 (r + off_nsec) (le_enc 8 (unat (ev_clock e)));
       m4 \<leftarrow> arena_write L m3 (r + off_pid) (le_enc 4 (unat (ev_pid e)));
       m5 \<leftarrow> arena_write L m4 (r + off_uid) (le_enc 4 (unat (ev_uid e)));
       m6 \<leftarrow> arena_write L m5 (r + off_action) (le_enc 1 (unat (ev_action e)));
       m7 \<leftarrow> arena_write L m6 (r + off_protocol) (le_enc 1 (unat (ev_protocol e)));
       m8 \<leftarrow> arena_write L m7 (r + off_family) (le_enc 2 (unat (ev_family e)));
       m9 \<leftarrow> store_ip L m8 (r + off_src) (ev_src_ip e) (unat (ev_family e));
       m10 \<leftarrow> store_ip L m9 (r + off_dst) (ev_dst_ip e) (unat (ev_family e));
       m11 \<leftarrow> arena_write L m10 (r + off_src_port) (le_enc 4 (unat (ev_src_port e)));
       m12 \<leftarrow> arena_write L m11 (r + off_dst_port) (le_enc 4 (unat (ev_dst_port e)));
       arena_write L m12 (log_path r) (take plen (ev_path e))
     }"

definition must_wrap :: "nat \<Rightarrow> nat \<Rightarrow> store \<Rightarrow> bool" where
  "must_wrap L rs s = (log_next_idx s + rs + sizeof_size_t \<ge> L)"

definition wrap_around :: "nat \<Rightarrow> nat \<Rightarrow> store \<Rightarrow> store option" where
  \<comment> \<open>an empty \<^verbatim>\<open>size_t\<close> marks the wrap around\<close>
  "wrap_around L rs s =
     (if must_wrap L rs s then
        do {
          m \<leftarrow> arena_write L (log_buf s) (log_next_idx s) (le_enc sizeof_size_t 0);
          Some (s\<lparr> log_buf := m, log_next_idx := 0 \<rparr>)
        }
      else Some s)"

definition store_record :: "nat \<Rightarrow> event \<Rightarrow> store \<Rightarrow> (store \<times> notice list) option" where
  "store_record L e s0 =
     (let plen = stored_path_len L (ev_path e);
          rs = record_size L (ev_path e);
          s1 = drop_old L rs s0
      in do {
        s2 \<leftarrow> wrap_around L rs s1;
        m \<leftarrow> fill_record L (log_buf s2) (log_next_idx s2) rs plen e;
        Some (s2\<lparr> log_buf := m,
                  log_next_idx := u32 (log_next_idx s2 + rs),
                  log_next_seq := log_next_seq s2 + 1 \<rparr>,
              if truncating L (strlen (ev_path e)) then [Warning_troncating_path] else [])
      })"

fun appends :: "nat \<Rightarrow> event list \<Rightarrow> store \<Rightarrow> store option" where
  "appends L [] s = Some s"
| "appends L (e # es) s =
     (case store_record L e s of
        None \<Rightarrow> None
      | Some (s', _) \<Rightarrow> appends L es s')"

section \<open>Reading: the character device\<close>

text \<open>
  The private data of an open file: the cursor of that reader. The line buffer and the
  mutex of \<^verbatim>\<open>struct user_data\<close> hold nothing between two calls.
\<close>

record user_data =
  log_curr_seq :: "64 word"
  log_curr_idx :: nat

datatype errno = EBADF | EINTR | EAGAIN | EPIPE | EINVAL | EFAULT | ESPIPE | ENOMEM

text \<open>
  The macros of the headers that are not among the sources, and the two address
  formatters of the kernel's \<^verbatim>\<open>sprintf\<close> (\<^verbatim>\<open>%pI4\<close> and \<^verbatim>\<open>%pI6c\<close>), are parameters of the
  reader.
\<close>

record config =
  LOG_FACILITY :: nat
  LOG_LEVEL :: nat
  MODULE_NAME :: string
  PROTO_TCP :: nat
  PROTO_UDP :: nat
  ACTION_CONNECT :: nat
  ACTION_ACCEPT :: nat
  ACTION_CLOSE :: nat
  ACTION_BIND :: nat
  pI4 :: "byte list \<Rightarrow> string"
  pI6c :: "byte list \<Rightarrow> string"

fun dec :: "nat \<Rightarrow> string" where
  "dec n = (if n < 10 then [char_of (48 + n)]
            else dec (n div 10) @ [char_of (48 + n mod 10)])"

definition pad_left :: "nat \<Rightarrow> char \<Rightarrow> string \<Rightarrow> string" where
  "pad_left w c t = replicate (w - length t) c @ t"

definition dec_int :: "nat \<Rightarrow> string" where
  \<comment> \<open>\<^verbatim>\<open>%d\<close> of the 32-bit value \<open>v\<close>\<close>
  "dec_int v = (if v mod 2 ^ 32 < 2 ^ 31 then dec (v mod 2 ^ 32)
                else CHR ''-'' # dec (2 ^ 32 - v mod 2 ^ 32))"

definition path_text :: "mem \<Rightarrow> nat \<Rightarrow> nat \<Rightarrow> string" where
  \<comment> \<open>\<^verbatim>\<open>%.*s\<close> with the precision \<^verbatim>\<open>(int)record->path_len\<close>: at most that many bytes, up to
      the first NUL; a negative precision is no precision, and \<^verbatim>\<open>sprintf\<close> stops after
      \<^verbatim>\<open>INT_MAX\<close> bytes\<close>
  "path_text m a plen =
     (let prec = (if plen mod 2 ^ 32 < 2 ^ 31 then plen mod 2 ^ 32 else INT_MAX)
      in map (\<lambda>b. char_of (unat b)) (takeWhile (\<lambda>b. b \<noteq> 0) (mem_read m a prec)))"

definition log_protocol :: "config \<Rightarrow> netlog_log \<Rightarrow> string" where
  "log_protocol cfg r =
     (if protocol r = PROTO_TCP cfg then ''TCP''
      else if protocol r = PROTO_UDP cfg then ''UDP''
      else ''UNK'')"

definition endpoint :: "config \<Rightarrow> nat \<Rightarrow> byte list \<Rightarrow> nat \<Rightarrow> string" where
  \<comment> \<open>the \<^verbatim>\<open>switch(record->family)\<close>, the same for both ends\<close>
  "endpoint cfg fam raw port =
     (if fam = AF_INET then pI4 cfg (take 4 raw) @ '':'' @ dec_int port
      else if fam = AF_INET6 then ''['' @ pI6c cfg raw @ '']:'' @ dec_int port
      else ''Unknown'')"

definition render :: "config \<Rightarrow> mem \<Rightarrow> nat \<Rightarrow> string" where
  "render cfg m idx =
     (let r = load_record m idx;
          ts = nsec r div 1000000000;
          rem_nsec = nsec r mod 1000000000;
          header = ''<'' @ dec (push_bit 3 (LOG_FACILITY cfg) OR LOG_LEVEL cfg) @ ''>1 - - ''
                   @ MODULE_NAME cfg @ '' - - - ['' @ pad_left 5 CHR '' '' (dec ts) @ ''.''
                   @ pad_left 6 CHR ''0'' (dec (rem_nsec div 1000)) @ '']: '';
          who = path_text m (log_path idx) (path_len r) @ ''['' @ dec_int (pid r) @ ''] ''
                @ log_protocol cfg r @ '' '';
          source = endpoint cfg (family r) (src r) (src_port r);
          target = endpoint cfg (family r) (dst r) (dst_port r);
          uid_text = '' (uid='' @ dec_int (uid r) @ '')'' @ [CHR 0x0A]
      in header @ who @ source @
         (if action r = ACTION_CONNECT cfg then '' -> '' @ target
          else if action r = ACTION_ACCEPT cfg then '' <- '' @ target
          else if action r = ACTION_CLOSE cfg then '' <!> '' @ target
          else if action r = ACTION_BIND cfg then '' BIND ''
          else '' UNK '') @ uid_text)"

text \<open>
  One call of \<^verbatim>\<open>read\<close>: whether the file is \<^verbatim>\<open>O_NONBLOCK\<close>, the \<^verbatim>\<open>count\<close> of the user
  buffer, whether a signal interrupts \<^verbatim>\<open>mutex_lock_interruptible\<close>, and whether
  \<^verbatim>\<open>copy_to_user\<close> fails. A blocking read that finds nothing new sleeps on the wait
  queue; it starts again from the top of the loop when an append wakes it, so the
  sequential model returns \<open>Sleeping\<close> with the cursor as it was.
\<close>

record read_call =
  rc_nonblock :: bool
  rc_count :: nat
  rc_interrupted :: bool
  rc_copy_fails :: bool

datatype read_result = Failed errno | Delivered string | Sleeping

definition advance :: "store \<Rightarrow> user_data \<Rightarrow> user_data" where
  "advance s d =
     d\<lparr> log_curr_idx := next_record (log_buf s) (log_curr_idx d),
        log_curr_seq := log_curr_seq d + 1 \<rparr>"

definition netlog_log_read ::
    "config \<Rightarrow> store \<Rightarrow> user_data option \<Rightarrow> read_call \<Rightarrow> read_result \<times> user_data option" where
  "netlog_log_read cfg s private_data c =
     (case private_data of
        None \<Rightarrow> (Failed EBADF, None)
      | Some d \<Rightarrow>
          if rc_interrupted c then (Failed EINTR, Some d)
          else if log_curr_seq d = log_next_seq s then
            (if rc_nonblock c then (Failed EAGAIN, Some d) else (Sleeping, Some d))
          else if log_curr_seq d < log_first_seq s then
            (Failed EPIPE,
             Some (d\<lparr> log_curr_seq := log_first_seq s, log_curr_idx := log_first_idx s \<rparr>))
          else
            (let line = render cfg (log_buf s) (log_curr_idx d);
                 d' = advance s d
             in if length line > rc_count c then (Failed EINVAL, Some d')
                else if rc_copy_fails c then (Failed EFAULT, Some d')
                else (Delivered line, Some d')))"

definition SEEK_SET :: int where "SEEK_SET = 0"
definition SEEK_CUR :: int where "SEEK_CUR = 1"
definition SEEK_END :: int where "SEEK_END = 2"

definition netlog_log_llseek ::
    "store \<Rightarrow> user_data option \<Rightarrow> int \<Rightarrow> int \<Rightarrow> (errno + int) \<times> user_data option" where
  "netlog_log_llseek s private_data offset whence =
     (case private_data of
        None \<Rightarrow> (Inl EBADF, None)
      | Some d \<Rightarrow>
          if offset \<noteq> 0 then (Inl ESPIPE, Some d)
          else if whence = SEEK_SET then
            (Inr 0, Some (d\<lparr> log_curr_seq := log_first_seq s, log_curr_idx := log_first_idx s \<rparr>))
          else if whence = SEEK_CUR then (Inr 0, Some d)
          else if whence = SEEK_END then
            (Inr 0, Some (d\<lparr> log_curr_seq := log_next_seq s, log_curr_idx := log_next_idx s \<rparr>))
          else (Inl EINVAL, Some d))"

definition netlog_log_open :: "bool \<Rightarrow> store \<Rightarrow> (errno + user_data) \<times> store" where
  \<comment> \<open>the flag says whether \<^verbatim>\<open>kmalloc\<close> returns memory\<close>
  "netlog_log_open kmalloc_ok s =
     (if \<not> kmalloc_ok then (Inl ENOMEM, s)
      else if first_read s then
        (Inr \<lparr> log_curr_seq = log_first_seq s, log_curr_idx = log_first_idx s \<rparr>,
         s\<lparr> first_read := False \<rparr>)
      else
        (Inr \<lparr> log_curr_seq = log_next_seq s, log_curr_idx = log_next_idx s \<rparr>, s))"

section \<open>Histories of calls\<close>

text \<open>
  The store together with the private data of every open file, and the calls that act
  on them. A call on a file returns its status to the caller; the history keeps the
  state it leaves behind.
\<close>

record system =
  sys_store :: store
  sys_files :: "nat \<Rightarrow> user_data option"

datatype call =
    Store_record event
  | Open_file nat bool
  | Read_file nat read_call
  | Seek_file nat int int
  | Release_file nat

definition init_system :: system where
  "init_system = \<lparr> sys_store = init_store, sys_files = (\<lambda>_. None) \<rparr>"

fun step :: "nat \<Rightarrow> config \<Rightarrow> call \<Rightarrow> system \<Rightarrow> system option" where
  "step L cfg (Store_record e) y =
     (case store_record L e (sys_store y) of
        None \<Rightarrow> None
      | Some (s', _) \<Rightarrow> Some (y\<lparr> sys_store := s' \<rparr>))"
| "step L cfg (Open_file f ok) y =
     (case netlog_log_open ok (sys_store y) of
        (Inl _, s') \<Rightarrow> Some (y\<lparr> sys_store := s' \<rparr>)
      | (Inr d, s') \<Rightarrow> Some (y\<lparr> sys_store := s', sys_files := (sys_files y)(f := Some d) \<rparr>))"
| "step L cfg (Read_file f c) y =
     Some (y\<lparr> sys_files := (sys_files y)
               (f := snd (netlog_log_read cfg (sys_store y) (sys_files y f) c)) \<rparr>)"
| "step L cfg (Seek_file f offset whence) y =
     Some (y\<lparr> sys_files := (sys_files y)
               (f := snd (netlog_log_llseek (sys_store y) (sys_files y f) offset whence)) \<rparr>)"
| "step L cfg (Release_file f) y =
     Some (y\<lparr> sys_files := (sys_files y)(f := None) \<rparr>)"

fun run :: "nat \<Rightarrow> config \<Rightarrow> call list \<Rightarrow> system \<Rightarrow> system option" where
  "run L cfg [] y = Some y"
| "run L cfg (c # cs) y =
     (case step L cfg c y of
        None \<Rightarrow> None
      | Some y' \<Rightarrow> run L cfg cs y')"

section \<open>Notions used in the statements\<close>

text \<open>
  The capacity must hold one record of the largest size and a sentinel, and fit the
  \<^verbatim>\<open>u32\<close> indices.
\<close>

definition arena_ok :: "nat \<Rightarrow> bool" where
  "arena_ok L =
     (sizeof_netlog_log + L div 16 + 1 + (LOG_ALIGN - 1) + sizeof_size_t \<le> L \<and> L < 2 ^ 32)"

definition c_string :: "byte list \<Rightarrow> byte list" where
  \<comment> \<open>the string a \<^verbatim>\<open>char\<close> pointer denotes: the bytes before the first NUL\<close>
  "c_string p = takeWhile (\<lambda>b. b \<noteq> 0) p"

definition must_drop :: "nat \<Rightarrow> nat \<Rightarrow> store \<Rightarrow> bool" where
  \<comment> \<open>the loop of \<open>drop_old\<close> goes round once more\<close>
  "must_drop L rs s =
     (log_first_seq s < log_next_seq s \<and> log_free L s \<le> rs + sizeof_size_t)"

definition plain_free :: "nat \<Rightarrow> store \<Rightarrow> nat" where
  \<comment> \<open>the free space of the specification, on natural numbers\<close>
  "plain_free L s =
     (if log_next_idx s > log_first_idx s
      then max (L - log_next_idx s) (log_first_idx s)
      else log_first_idx s - log_next_idx s)"

definition record_idx :: "nat \<Rightarrow> nat \<Rightarrow> store \<Rightarrow> nat" where
  \<comment> \<open>where an append of \<open>rs\<close> bytes puts its record\<close>
  "record_idx L rs s = (if must_wrap L rs s then 0 else log_next_idx s)"

definition sentinel_mem :: "nat \<Rightarrow> nat \<Rightarrow> store \<Rightarrow> mem" where
  \<comment> \<open>the buffer once the end-of-buffer marker is in place, when one is due\<close>
  "sentinel_mem L rs s =
     (if must_wrap L rs s then mem_write (log_buf s) (log_next_idx s) (le_enc sizeof_size_t 0)
      else log_buf s)"

definition indices :: "store \<Rightarrow> (64 word \<times> nat) \<times> (64 word \<times> nat)" where
  \<comment> \<open>(first sequence number, first index), (next sequence number, next index)\<close>
  "indices s = ((log_first_seq s, log_first_idx s), (log_next_seq s, log_next_idx s))"

definition word_at :: "nat \<Rightarrow> store \<Rightarrow> nat" where
  \<comment> \<open>the \<^verbatim>\<open>size_t\<close> found at an offset of the buffer\<close>
  "word_at a s = load_size_t (log_buf s) a"

text \<open>
  The records a reader meets on its way from \<open>log_first_idx\<close> to \<open>log_next_idx\<close>: a
  length of zero sends it to offset 0 and is no record. \<open>None\<close> when the walk does not
  arrive within \<open>k\<close> steps.
\<close>

fun records_between :: "nat \<Rightarrow> mem \<Rightarrow> nat \<Rightarrow> nat \<Rightarrow> nat option" where
  "records_between 0 m i j = (if i = j then Some 0 else None)"
| "records_between (Suc k) m i j =
     (if i = j then Some 0
      else if load_size_t m i = 0 then records_between k m 0 j
      else map_option Suc (records_between k m (u32 (i + load_size_t m i)) j))"

definition live_records :: "nat \<Rightarrow> store \<Rightarrow> nat option" where
  "live_records k s = records_between k (log_buf s) (log_first_idx s) (log_next_idx s)"

subsection \<open>Summaries of a store\<close>

text \<open>
  To run long histories inside the logic, a store is summarised by its four indices, a
  list of \<^verbatim>\<open>size_t\<close> values known to stand at given offsets, and an offset from which on
  every byte is still zero. \<open>sm_store_record\<close> follows \<open>store_record\<close> on summaries: it
  looks lengths up in the list, forgets what an append overwrites and notes the length
  and the time stamp of the new record. It is \<open>None\<close> when the list does not know a
  length the loop reads. The summaries serve the proofs only; \<open>sm_appends_sound\<close> ties
  them to the store.
\<close>

record summary =
  sm_first_seq :: "64 word"
  sm_first_idx :: nat
  sm_next_seq :: "64 word"
  sm_next_idx :: nat
  sm_words :: "(nat \<times> nat) list"
  sm_zero_from :: nat

definition init_summary :: summary where
  "init_summary = \<lparr> sm_first_seq = 0, sm_first_idx = 0, sm_next_seq = 0, sm_next_idx = 0,
                     sm_words = [], sm_zero_from = 0 \<rparr>"

definition summarises :: "summary \<Rightarrow> store \<Rightarrow> bool" where
  "summarises y s =
     (log_first_seq s = sm_first_seq y \<and> log_first_idx s = sm_first_idx y \<and>
      log_next_seq s = sm_next_seq y \<and> log_next_idx s = sm_next_idx y \<and>
      list_all (\<lambda>(a, v). load_size_t (log_buf s) a = v) (sm_words y) \<and>
      (\<forall>i\<ge>sm_zero_from y. log_buf s i = 0))"

definition sm_free :: "nat \<Rightarrow> summary \<Rightarrow> nat" where
  "sm_free L y =
     (if sm_next_idx y > sm_first_idx y
      then max (sub_u32 L (sm_next_idx y)) (sm_first_idx y)
      else sub_u32 (sm_first_idx y) (sm_next_idx y))"

definition sm_drop_first :: "nat \<Rightarrow> summary \<Rightarrow> summary" where
  "sm_drop_first l y =
     y\<lparr> sm_first_idx := (if l = 0 then 0 else u32 (sm_first_idx y + l)),
        sm_first_seq := sm_first_seq y + 1 \<rparr>"

function sm_drop_old :: "nat \<Rightarrow> nat \<Rightarrow> summary \<Rightarrow> summary option" where
  "sm_drop_old L rs y =
     (if sm_first_seq y < sm_next_seq y then
        (if sm_free L y > rs + sizeof_size_t then Some y
         else case map_of (sm_words y) (sm_first_idx y) of
                None \<Rightarrow> None
              | Some l \<Rightarrow> sm_drop_old L rs (sm_drop_first l y))
      else Some y)"
  by pat_completeness auto
termination
proof (relation "measure (\<lambda>(L, rs, y). unat (sm_next_seq y) - unat (sm_first_seq y))")
  show "wf (measure (\<lambda>(L, rs, y). unat (sm_next_seq y) - unat (sm_first_seq y)))"
    by simp
next
  fix L rs l :: nat and y :: summary
  assume lt: "sm_first_seq y < sm_next_seq y"
  then have less: "unat (sm_first_seq y) < unat (sm_next_seq y)"
    by (simp add: word_less_nat_alt)
  have "unat (sm_next_seq y) < 2 ^ LENGTH(64)"
    by (rule unsigned_less)
  with less have "unat (sm_first_seq y) + unat (1 :: 64 word) < 2 ^ LENGTH(64)"
    by simp
  then have "unat (sm_first_seq y + 1) = unat (sm_first_seq y) + 1"
    by (simp only: unat_add_lem [THEN iffD1] unat_1)
  with less show "((L, rs, sm_drop_first l y), (L, rs, y))
      \<in> measure (\<lambda>(L, rs, y). unat (sm_next_seq y) - unat (sm_first_seq y))"
    by (simp add: sm_drop_first_def)
qed

definition apart :: "nat \<Rightarrow> nat \<Rightarrow> nat \<times> nat \<Rightarrow> bool" where
  \<comment> \<open>the \<^verbatim>\<open>size_t\<close> at \<open>a\<close> lies outside the \<open>n\<close> bytes from \<open>r\<close>\<close>
  "apart r n = (\<lambda>(a, v). a + sizeof_size_t \<le> r \<or> r + n \<le> a)"

definition sm_store_record :: "nat \<Rightarrow> event \<Rightarrow> summary \<Rightarrow> summary option" where
  "sm_store_record L e y0 =
     (let rs = record_size L (ev_path e) in
      case sm_drop_old L rs y0 of
        None \<Rightarrow> None
      | Some y1 \<Rightarrow>
          (let wrap = (sm_next_idx y1 + rs + sizeof_size_t \<ge> L);
               r = (if wrap then 0 else sm_next_idx y1);
               ws = (if wrap
                     then (sm_next_idx y1, 0)
                          # filter (apart (sm_next_idx y1) sizeof_size_t) (sm_words y1)
                     else sm_words y1)
           in Some (y1\<lparr> sm_next_idx := u32 (r + rs),
                         sm_next_seq := sm_next_seq y1 + 1,
                         sm_words := (r + off_len, rs)
                                     # (r + off_nsec, unat (ev_clock e))
                                     # filter (apart r rs) ws,
                         sm_zero_from := max (sm_zero_from y1) (r + rs) \<rparr>)))"

fun sm_appends :: "nat \<Rightarrow> event list \<Rightarrow> summary \<Rightarrow> summary option" where
  "sm_appends L [] y = Some y"
| "sm_appends L (e # es) y =
     (case sm_store_record L e y of
        None \<Rightarrow> None
      | Some y' \<Rightarrow> sm_appends L es y')"

subsection \<open>Sample data\<close>

text \<open>
  An event whose path is \<open>n\<close> letters \<^verbatim>\<open>a\<close>, stamped with the time \<open>t\<close>: a TCP connect
  by process 1 of user 0, from port 80 to port 81, with no addresses given.
\<close>

definition sample :: "nat \<Rightarrow> nat \<Rightarrow> event" where
  "sample n t =
     \<lparr> ev_pid = 1, ev_uid = 0, ev_path = replicate n 97, ev_action = 0, ev_protocol = 0,
       ev_family = 2, ev_src_ip = None, ev_src_port = 80, ev_dst_ip = None,
       ev_dst_port = 81, ev_clock = of_nat t \<rparr>"

text \<open>
  Values for the macros of the reader, for the examples: the headers that define them
  are not among the sources. \<^verbatim>\<open>%pI4\<close> prints dotted decimals; the stand-in for
  \<^verbatim>\<open>%pI6c\<close> prints every address as \<^verbatim>\<open>::\<close>, and no example has an IPv6 address.
\<close>

definition ip4_text :: "byte list \<Rightarrow> string" where
  "ip4_text bs =
     (case bs of
        [a, b, c, d] \<Rightarrow> dec (unat a) @ ''.'' @ dec (unat b) @ ''.'' @ dec (unat c) @ ''.''
                        @ dec (unat d)
      | _ \<Rightarrow> [])"

definition sample_config :: config where
  "sample_config =
     \<lparr> LOG_FACILITY = 0, LOG_LEVEL = 6, MODULE_NAME = ''netlog'',
       PROTO_TCP = 0, PROTO_UDP = 1,
       ACTION_CONNECT = 0, ACTION_ACCEPT = 1, ACTION_CLOSE = 2, ACTION_BIND = 3,
       pI4 = ip4_text, pI6c = (\<lambda>_. ''::'') \<rparr>"

text \<open>
  With a capacity of 4096 bytes the longest path has 256 bytes and its record 344.
  Eleven such records fill the buffer up to offset 3784 (\<open>lap_store\<close>); the twelfth
  wraps around (\<open>wrapped_store\<close>). After 21 appends the first index stands on the
  end-of-buffer marker (\<open>late_store\<close>); the 22nd walks it over the marker
  (\<open>full_store\<close>).
\<close>

definition lap_events :: "event list" where
  "lap_events = map (sample 256) [0, 1, 2, 3, 4, 5, 6, 7, 8, 9, 10]"

definition late_events :: "event list" where
  "late_events = map (sample 256) [11, 12, 13, 14, 15, 16, 17, 18, 19, 20]"

definition lap_store :: store where
  "lap_store = the (appends 4096 lap_events init_store)"

definition wrapped_store :: store where
  "wrapped_store = the (appends 4096 [sample 256 11] lap_store)"

definition late_store :: store where
  "late_store = the (appends 4096 late_events lap_store)"

definition full_store :: store where
  "full_store = the (appends 4096 [sample 256 21] late_store)"

text \<open>The summaries of these four stores.\<close>

definition lap_summary :: summary where
  "lap_summary =
     \<lparr> sm_first_seq = 0, sm_first_idx = 0, sm_next_seq = 11, sm_next_idx = 3784,
       sm_words =
         [(3440, 344), (3456, 10), (3096, 344), (3112, 9), (2752, 344), (2768, 8),
          (2408, 344), (2424, 7), (2064, 344), (2080, 6), (1720, 344), (1736, 5),
          (1376, 344), (1392, 4), (1032, 344), (1048, 3), (688, 344), (704, 2),
          (344, 344), (360, 1), (0, 344), (16, 0)],
       sm_zero_from = 3784 \<rparr>"

definition wrapped_summary :: summary where
  "wrapped_summary =
     \<lparr> sm_first_seq = 2, sm_first_idx = 688, sm_next_seq = 12, sm_next_idx = 344,
       sm_words =
         [(0, 344), (16, 11), (3784, 0), (3440, 344), (3456, 10), (3096, 344),
          (3112, 9), (2752, 344), (2768, 8), (2408, 344), (2424, 7), (2064, 344),
          (2080, 6), (1720, 344), (1736, 5), (1376, 344), (1392, 4), (1032, 344),
          (1048, 3), (688, 344), (704, 2), (344, 344), (360, 1)],
       sm_zero_from = 3784 \<rparr>"

definition late_summary :: summary where
  "late_summary =
     \<lparr> sm_first_seq = 11, sm_first_idx = 3784, sm_next_seq = 21, sm_next_idx = 3440,
       sm_words =
         [(3096, 344), (3112, 20), (2752, 344), (2768, 19), (2408, 344),
          (2424, 18), (2064, 344), (2080, 17), (1720, 344), (1736, 16),
          (1376, 344), (1392, 15), (1032, 344), (1048, 14), (688, 344), (704, 13),
          (344, 344), (360, 12), (0, 344), (16, 11), (3784, 0), (3440, 344),
          (3456, 10)],
       sm_zero_from = 3784 \<rparr>"

definition full_summary :: summary where
  "full_summary =
     \<lparr> sm_first_seq = 12, sm_first_idx = 0, sm_next_seq = 22, sm_next_idx = 3784,
       sm_words =
         [(3440, 344), (3456, 21), (3096, 344), (3112, 20), (2752, 344),
          (2768, 19), (2408, 344), (2424, 18), (2064, 344), (2080, 17),
          (1720, 344), (1736, 16), (1376, 344), (1392, 15), (1032, 344),
          (1048, 14), (688, 344), (704, 13), (344, 344), (360, 12), (0, 344),
          (16, 11), (3784, 0)],
       sm_zero_from = 3784 \<rparr>"

declare drop_old.simps [simp del] sm_drop_old.simps [simp del]

lemma mem_write_apply: "mem_write m a bs i = (if a \<le> i \<and> i < a + length bs then bs ! (i - a) else m i)"
  by (simp add: mem_write_def)

lemma mem_write_outside: "i < a \<or> a + length bs \<le> i \<Longrightarrow> mem_write m a bs i = m i"
  by (auto simp: mem_write_def)

lemma mem_write_Nil [simp]: "mem_write m a [] = m"
  by (rule ext) (auto simp: mem_write_def)

lemma mem_read_length [simp]: "length (mem_read m a n) = n"
  by (simp add: mem_read_def)

lemma mem_read_write_same: "n = length bs \<Longrightarrow> mem_read (mem_write m a bs) a n = bs"
  by (auto simp: mem_read_def mem_write_def intro!: nth_equalityI)

lemma mem_read_write_other:
  "a' + n \<le> a \<or> a + length bs \<le> a' \<Longrightarrow> mem_read (mem_write m a bs) a' n = mem_read m a' n"
  by (auto simp: mem_read_def mem_write_def)

lemma length_le_enc [simp]: "length (le_enc k n) = k"
  by (induction k arbitrary: n) auto

lemma le_dec_le_enc: "le_dec (le_enc k n) = n mod 256 ^ k"
proof (induction k arbitrary: n)
  case 0
  show ?case by simp
next
  case (Suc k)
  have "unat (of_nat n :: byte) = n mod 256"
    by (simp add: unat_of_nat)
  then show ?case
    using Suc [of "n div 256"] by (simp add: mod_mult2_eq)
qed

lemma load_size_t_write_same:
  "n < 2 ^ 64 \<Longrightarrow> load_size_t (mem_write m a (le_enc 8 n)) a = n"
  by (simp add: load_size_t_def mem_read_write_same le_dec_le_enc sizeof_size_t_def)

lemma load_size_t_write_other:
  "a' + 8 \<le> a \<or> a + length bs \<le> a' \<Longrightarrow> load_size_t (mem_write m a bs) a' = load_size_t m a'"
  by (simp add: load_size_t_def mem_read_write_other sizeof_size_t_def)

lemma load_size_t_cong:
  "(\<And>i. a \<le> i \<Longrightarrow> i < a + 8 \<Longrightarrow> m i = m' i) \<Longrightarrow> load_size_t m a = load_size_t m' a"
proof -
  assume "\<And>i. a \<le> i \<Longrightarrow> i < a + 8 \<Longrightarrow> m i = m' i"
  then have eq: "map m [a..<a + 8] = map m' [a..<a + 8]"
    by simp
  show ?thesis
    unfolding load_size_t_def mem_read_def sizeof_size_t_def by (simp only: eq)
qed

lemma neg_mod_8: "(- int n) mod 8 = int ((8 - n mod 8) mod 8)"
proof -
  have h: "int n mod 8 = int (n mod 8)" by (simp add: zmod_int)
  have lt: "n mod 8 < 8" by simp
  show ?thesis
  proof (cases "n mod 8 = 0")
    case True
    with h show ?thesis by (simp add: zmod_zminus1_eq_if)
  next
    case False
    with h lt show ?thesis
      by (simp add: zmod_zminus1_eq_if)
  qed
qed

lemma unat_neg_and_7: "unat ((- (of_nat n :: 64 word)) AND 7) = (8 - n mod 8) mod 8"
proof -
  have "(7 :: 64 word) = mask 3" by (simp add: mask_eq_exp_minus_1)
  then have a: "unat ((- (of_nat n :: 64 word)) AND 7) = unat (- (of_nat n :: 64 word)) mod 8"
    by (simp only: flip: take_bit_eq_mask) (simp add: unsigned_take_bit_eq take_bit_eq_mod unat_mod_distrib)
  have "uint (of_nat n :: 64 word) = int n mod 2 ^ 64"
    by (simp add: unsigned_of_nat take_bit_eq_mod zmod_int)
  then have "uint (- (of_nat n :: 64 word)) = (- (int n mod 2 ^ 64)) mod 2 ^ 64"
    by (simp add: uint_word_ariths)
  then have u: "uint (- (of_nat n :: 64 word)) = (- int n) mod 2 ^ 64"
    by (simp only: mod_minus_eq)
  have "(8::int) dvd 2 ^ 64" by simp
  then have "((- int n) mod 2 ^ 64) mod 8 = (- int n) mod 8"
    by (rule mod_mod_cancel)
  then have "uint (- (of_nat n :: 64 word)) mod 8 = int ((8 - n mod 8) mod 8)"
    using u by (simp only: neg_mod_8)
  then have "int (unat (- (of_nat n :: 64 word)) mod 8) = int ((8 - n mod 8) mod 8)"
    by (simp add: zmod_int)
  then have "unat (- (of_nat n :: 64 word)) mod 8 = (8 - n mod 8) mod 8"
    by (simp only: of_nat_eq_iff)
  with a show ?thesis by simp
qed

lemma align_up_eq: "align_up n = n + (8 - n mod 8) mod 8"
  by (simp add: align_up_def LOG_ALIGN_def unat_neg_and_7)

lemma align_up_ge: "n \<le> align_up n"
  by (simp add: align_up_eq)

lemma align_up_le: "align_up n \<le> n + 7"
proof -
  have "(8 - n mod 8) mod 8 < 8"
    by (rule mod_less_divisor) simp
  then show ?thesis by (simp add: align_up_eq)
qed

lemma stored_path_len_le: "stored_path_len L p \<le> L div 16"
  by (simp add: stored_path_len_def truncating_def path_threshold_def)

lemma stored_path_len_le_length: "stored_path_len L p \<le> length p"
proof -
  have "strlen p \<le> length p"
    by (simp add: strlen_def length_takeWhile_le)
  then show ?thesis
    by (auto simp: stored_path_len_def truncating_def path_threshold_def)
qed

lemma record_size_ge: "sizeof_netlog_log + stored_path_len L p + 1 \<le> record_size L p"
  by (simp add: record_size_def align_up_ge)

lemma record_size_le: "record_size L p \<le> sizeof_netlog_log + L div 16 + 1 + (LOG_ALIGN - 1)"
  using align_up_le [of "sizeof_netlog_log + stored_path_len L p + 1"] stored_path_len_le [of L p]
  by (simp add: record_size_def LOG_ALIGN_def)


lemma record_size_fits: "arena_ok L \<Longrightarrow> record_size L p + sizeof_size_t \<le> L"
  using record_size_le [of L p] by (simp add: arena_ok_def)

lemma drop_old_frame:
  "log_buf (drop_old L rs s) = log_buf s \<and> log_next_idx (drop_old L rs s) = log_next_idx s \<and>
   log_next_seq (drop_old L rs s) = log_next_seq s \<and> first_read (drop_old L rs s) = first_read s"
proof (induction L rs s rule: drop_old.induct)
  case (1 L rs s)
  show ?case
  proof (cases "log_first_seq s < log_next_seq s \<and> \<not> log_free L s > rs + sizeof_size_t")
    case True
    then have "drop_old L rs s = drop_old L rs (drop_first s)"
      by (subst drop_old.simps) simp
    with True "1.IH" show ?thesis by (simp add: drop_first_def)
  next
    case False
    then have "drop_old L rs s = s"
      by (subst drop_old.simps) auto
    then show ?thesis by simp
  qed
qed

lemma store_ip_SomeD:
  "store_ip L m d ip fam = Some m' \<Longrightarrow> \<exists>bs. length bs \<le> 16 \<and> m' = mem_write m d bs"
proof (cases ip)
  case None
  assume "store_ip L m d ip fam = Some m'"
  with None have "m' = mem_write m d (replicate 16 0)"
    by (simp add: store_ip_def arena_write_def split: if_splits)
  then show ?thesis by (intro exI [of _ "replicate 16 0"]) simp
next
  case (Some a)
  assume "store_ip L m d ip fam = Some m'"
  with Some have "m' = mem_write m d (take 4 a) \<or> m' = mem_write m d (take 16 a) \<or> m' = mem_write m d []"
    by (auto simp: store_ip_def copy_ip_def arena_write_def split: if_splits)
  then show ?thesis
  proof (elim disjE)
    assume "m' = mem_write m d (take 4 a)"
    then show ?thesis by (intro exI [of _ "take 4 a"]) simp
  next
    assume "m' = mem_write m d (take 16 a)"
    then show ?thesis by (intro exI [of _ "take 16 a"]) simp
  next
    assume "m' = mem_write m d []"
    then show ?thesis by (intro exI [of _ "[]"]) simp
  qed
qed

lemma store_ip_Some: "d + 16 \<le> L \<Longrightarrow> \<exists>m'. store_ip L m d ip fam = Some m'"
  by (cases ip) (auto simp: store_ip_def copy_ip_def arena_write_def)


lemmas layout_defs = off_len_def off_path_len_def off_nsec_def off_pid_def off_uid_def
  off_action_def off_protocol_def off_family_def off_src_port_def off_dst_port_def
  off_dst_def off_src_def log_path_def sizeof_netlog_log_def sizeof_size_t_def

lemma fill_record_SomeD:
  assumes "fill_record L m r rs plen e = Some m'"
  obtains b9 b10 where "length b9 \<le> 16" and "length b10 \<le> 16"
    and "m' = mem_write (mem_write (mem_write (mem_write (mem_write
               (mem_write (mem_write (mem_write (mem_write (mem_write
               (mem_write (mem_write (mem_write m
                 (r + off_len) (le_enc sizeof_size_t rs))
                 (r + off_path_len) (le_enc sizeof_size_t plen))
                 (r + off_nsec) (le_enc 8 (unat (ev_clock e))))
                 (r + off_pid) (le_enc 4 (unat (ev_pid e))))
                 (r + off_uid) (le_enc 4 (unat (ev_uid e))))
                 (r + off_action) (le_enc 1 (unat (ev_action e))))
                 (r + off_protocol) (le_enc 1 (unat (ev_protocol e))))
                 (r + off_family) (le_enc 2 (unat (ev_family e))))
                 (r + off_src) b9)
                 (r + off_dst) b10)
                 (r + off_src_port) (le_enc 4 (unat (ev_src_port e))))
                 (r + off_dst_port) (le_enc 4 (unat (ev_dst_port e))))
                 (log_path r) (take plen (ev_path e))"
    and "log_path r + length (take plen (ev_path e)) \<le> L"
proof -
  from assms obtain m8 m9 m10 where
    m8: "m8 = mem_write (mem_write (mem_write (mem_write (mem_write
               (mem_write (mem_write (mem_write m
                 (r + off_len) (le_enc sizeof_size_t rs))
                 (r + off_path_len) (le_enc sizeof_size_t plen))
                 (r + off_nsec) (le_enc 8 (unat (ev_clock e))))
                 (r + off_pid) (le_enc 4 (unat (ev_pid e))))
                 (r + off_uid) (le_enc 4 (unat (ev_uid e))))
                 (r + off_action) (le_enc 1 (unat (ev_action e))))
                 (r + off_protocol) (le_enc 1 (unat (ev_protocol e))))
                 (r + off_family) (le_enc 2 (unat (ev_family e)))"
    and m9: "store_ip L m8 (r + off_src) (ev_src_ip e) (unat (ev_family e)) = Some m9"
    and m10: "store_ip L m9 (r + off_dst) (ev_dst_ip e) (unat (ev_family e)) = Some m10"
    and m': "m' = mem_write (mem_write (mem_write m10
                 (r + off_src_port) (le_enc 4 (unat (ev_src_port e))))
                 (r + off_dst_port) (le_enc 4 (unat (ev_dst_port e))))
                 (log_path r) (take plen (ev_path e))"
    and fits: "log_path r + length (take plen (ev_path e)) \<le> L"
    by (auto simp: fill_record_def bind_eq_Some_conv arena_write_def split: if_splits)
  from m9 obtain b9 where b9: "length b9 \<le> 16" "m9 = mem_write m8 (r + off_src) b9"
    by (blast dest: store_ip_SomeD)
  from m10 obtain b10 where b10: "length b10 \<le> 16" "m10 = mem_write m9 (r + off_dst) b10"
    by (blast dest: store_ip_SomeD)
  show thesis
    by (rule that [OF b9(1) b10(1) _ fits]) (simp add: m' b10(2) b9(2) m8)
qed

lemma fill_record_Some:
  assumes "r + sizeof_netlog_log + plen \<le> L"
  shows "\<exists>m'. fill_record L m r rs plen e = Some m'"
proof -
  have "fill_record L m r rs plen e \<noteq> None"
    using assms
    by (auto simp: fill_record_def bind_eq_None_conv arena_write_def layout_defs
             intro!: store_ip_Some)
  then show ?thesis by blast
qed

lemma fill_record_outside:
  assumes "fill_record L m r rs plen e = Some m'"
    and "i < r \<or> r + sizeof_netlog_log + plen \<le> i"
  shows "m' i = m i"
proof -
  from assms(1) obtain b9 b10 where "length b9 \<le> 16" "length b10 \<le> 16"
    and "m' = mem_write (mem_write (mem_write (mem_write (mem_write
               (mem_write (mem_write (mem_write (mem_write (mem_write
               (mem_write (mem_write (mem_write m
                 (r + off_len) (le_enc sizeof_size_t rs))
                 (r + off_path_len) (le_enc sizeof_size_t plen))
                 (r + off_nsec) (le_enc 8 (unat (ev_clock e))))
                 (r + off_pid) (le_enc 4 (unat (ev_pid e))))
                 (r + off_uid) (le_enc 4 (unat (ev_uid e))))
                 (r + off_action) (le_enc 1 (unat (ev_action e))))
                 (r + off_protocol) (le_enc 1 (unat (ev_protocol e))))
                 (r + off_family) (le_enc 2 (unat (ev_family e))))
                 (r + off_src) b9)
                 (r + off_dst) b10)
                 (r + off_src_port) (le_enc 4 (unat (ev_src_port e))))
                 (r + off_dst_port) (le_enc 4 (unat (ev_dst_port e))))
                 (log_path r) (take plen (ev_path e))"
    by (rule fill_record_SomeD)
  note form = this
  from assms(2) show ?thesis
  proof
    assume "i < r"
    then show ?thesis
      by (simp add: form(3) mem_write_outside layout_defs)
  next
    assume "r + sizeof_netlog_log + plen \<le> i"
    with form(1,2) show ?thesis
      by (simp add: form(3) mem_write_outside layout_defs)
  qed
qed


lemma fill_record_words:
  assumes "fill_record L m r rs plen e = Some m'" and "rs < 2 ^ 64" and "plen < 2 ^ 64"
  shows "load_size_t m' (r + off_len) = rs"
    and "load_size_t m' (r + off_path_len) = plen"
    and "load_size_t m' (r + off_nsec) = unat (ev_clock e)"
proof -
  from assms(1) obtain b9 b10 where "length b9 \<le> 16" "length b10 \<le> 16"
    and "m' = mem_write (mem_write (mem_write (mem_write (mem_write
               (mem_write (mem_write (mem_write (mem_write (mem_write
               (mem_write (mem_write (mem_write m
                 (r + off_len) (le_enc sizeof_size_t rs))
                 (r + off_path_len) (le_enc sizeof_size_t plen))
                 (r + off_nsec) (le_enc 8 (unat (ev_clock e))))
                 (r + off_pid) (le_enc 4 (unat (ev_pid e))))
                 (r + off_uid) (le_enc 4 (unat (ev_uid e))))
                 (r + off_action) (le_enc 1 (unat (ev_action e))))
                 (r + off_protocol) (le_enc 1 (unat (ev_protocol e))))
                 (r + off_family) (le_enc 2 (unat (ev_family e))))
                 (r + off_src) b9)
                 (r + off_dst) b10)
                 (r + off_src_port) (le_enc 4 (unat (ev_src_port e))))
                 (r + off_dst_port) (le_enc 4 (unat (ev_dst_port e))))
                 (log_path r) (take plen (ev_path e))"
    by (rule fill_record_SomeD)
  note form = this
  have "unat (ev_clock e) < 2 ^ 64"
    using unsigned_less [of "ev_clock e"] by simp
  with form(1,2) assms(2,3)
  show "load_size_t m' (r + off_len) = rs"
    and "load_size_t m' (r + off_path_len) = plen"
    and "load_size_t m' (r + off_nsec) = unat (ev_clock e)"
    by (simp_all add: form(3) load_size_t_write_other load_size_t_write_same layout_defs)
qed

lemma fill_record_path:
  assumes "fill_record L m r rs plen e = Some m'"
  shows "mem_read m' (log_path r) (length (take plen (ev_path e))) = take plen (ev_path e)"
proof -
  from assms(1) obtain b9 b10 where "length b9 \<le> 16" "length b10 \<le> 16"
    and "m' = mem_write (mem_write (mem_write (mem_write (mem_write
               (mem_write (mem_write (mem_write (mem_write (mem_write
               (mem_write (mem_write (mem_write m
                 (r + off_len) (le_enc sizeof_size_t rs))
                 (r + off_path_len) (le_enc sizeof_size_t plen))
                 (r + off_nsec) (le_enc 8 (unat (ev_clock e))))
                 (r + off_pid) (le_enc 4 (unat (ev_pid e))))
                 (r + off_uid) (le_enc 4 (unat (ev_uid e))))
                 (r + off_action) (le_enc 1 (unat (ev_action e))))
                 (r + off_protocol) (le_enc 1 (unat (ev_protocol e))))
                 (r + off_family) (le_enc 2 (unat (ev_family e))))
                 (r + off_src) b9)
                 (r + off_dst) b10)
                 (r + off_src_port) (le_enc 4 (unat (ev_src_port e))))
                 (r + off_dst_port) (le_enc 4 (unat (ev_dst_port e))))
                 (log_path r) (take plen (ev_path e))"
    by (rule fill_record_SomeD)
  then show ?thesis
    by (simp only: mem_read_write_same)
qed


lemma must_wrap_drop_old [simp]: "must_wrap L rs (drop_old L rs' s) = must_wrap L rs s"
  by (simp add: must_wrap_def drop_old_frame)

lemma record_idx_drop_old [simp]: "record_idx L rs (drop_old L rs' s) = record_idx L rs s"
  by (simp add: record_idx_def drop_old_frame)

lemma record_idx_fits:
  assumes "arena_ok L"
  shows "record_idx L (record_size L p) s + record_size L p \<le> L"
    and "record_idx L (record_size L p) s + record_size L p + sizeof_size_t \<le> L"
  using record_size_fits [OF assms, of p]
  by (auto simp: record_idx_def must_wrap_def)

lemma store_record_effect:
  assumes ok: "arena_ok L" and inv: "log_next_idx s + sizeof_size_t \<le> L"
  obtains m' where
    "fill_record L (sentinel_mem L (record_size L (ev_path e)) s)
       (record_idx L (record_size L (ev_path e)) s) (record_size L (ev_path e))
       (stored_path_len L (ev_path e)) e = Some m'"
    and "store_record L e s =
       Some ((drop_old L (record_size L (ev_path e)) s)
               \<lparr> log_buf := m',
                 log_next_idx := record_idx L (record_size L (ev_path e)) s + record_size L (ev_path e),
                 log_next_seq := log_next_seq s + 1 \<rparr>,
             if truncating L (strlen (ev_path e)) then [Warning_troncating_path] else [])"
proof -
  let ?rs = "record_size L (ev_path e)"
  let ?plen = "stored_path_len L (ev_path e)"
  let ?r = "record_idx L ?rs s"
  let ?s1 = "drop_old L ?rs s"
  have fits: "?r + ?rs \<le> L"
    by (rule record_idx_fits [OF ok])
  have "?r + sizeof_netlog_log + ?plen \<le> L"
    using fits record_size_ge [of L "ev_path e"] by simp
  then obtain m' where m': "fill_record L (sentinel_mem L ?rs s) ?r ?rs ?plen e = Some m'"
    using fill_record_Some by blast
  have wrap: "wrap_around L ?rs ?s1 =
      Some (?s1\<lparr> log_buf := sentinel_mem L ?rs s, log_next_idx := ?r \<rparr>)"
    using inv
    by (simp add: wrap_around_def arena_write_def sentinel_mem_def record_idx_def drop_old_frame)
  have "L < 2 ^ 32"
    using ok by (simp add: arena_ok_def)
  with fits have "u32 (?r + ?rs) = ?r + ?rs"
    by (simp add: u32_def)
  then have "store_record L e s =
       Some (?s1\<lparr> log_buf := m', log_next_idx := ?r + ?rs, log_next_seq := log_next_seq s + 1 \<rparr>,
             if truncating L (strlen (ev_path e)) then [Warning_troncating_path] else [])"
    by (simp add: store_record_def Let_def wrap m' drop_old_frame)
  with m' show thesis by (rule that)
qed


lemma summarises_word:
  "summarises y s \<Longrightarrow> map_of (sm_words y) a = Some v \<Longrightarrow> load_size_t (log_buf s) a = v"
  by (auto simp: summarises_def list_all_iff dest!: map_of_SomeD)

lemma summarises_free: "summarises y s \<Longrightarrow> log_free L s = sm_free L y"
  by (simp add: summarises_def log_free_def sm_free_def)

lemma sm_drop_old_sound:
  "summarises y s \<Longrightarrow> sm_drop_old L rs y = Some y1 \<Longrightarrow> summarises y1 (drop_old L rs s)"
proof (induction L rs y arbitrary: s rule: sm_drop_old.induct)
  case (1 L rs y)
  show ?case
  proof (cases "sm_first_seq y < sm_next_seq y \<and> \<not> sm_free L y > rs + sizeof_size_t")
    case True
    then have "sm_drop_old L rs y =
        (case map_of (sm_words y) (sm_first_idx y) of
           None \<Rightarrow> None
         | Some l \<Rightarrow> sm_drop_old L rs (sm_drop_first l y))"
      by (subst sm_drop_old.simps) simp
    with "1.prems"(2) obtain l where l: "map_of (sm_words y) (sm_first_idx y) = Some l"
      and rec: "sm_drop_old L rs (sm_drop_first l y) = Some y1"
      by (auto split: option.splits)
    from "1.prems"(1) l have "load_size_t (log_buf s) (sm_first_idx y) = l"
      by (rule summarises_word)
    with "1.prems"(1) have "load_size_t (log_buf s) (log_first_idx s) = l"
      by (simp add: summarises_def)
    with "1.prems"(1) have "summarises (sm_drop_first l y) (drop_first s)"
      by (simp add: summarises_def sm_drop_first_def drop_first_def next_record_def)
    with True l rec have "summarises y1 (drop_old L rs (drop_first s))"
      by (intro "1.IH") auto
    moreover from True "1.prems"(1) have "drop_old L rs s = drop_old L rs (drop_first s)"
      by (subst drop_old.simps) (simp add: summarises_free, simp add: summarises_def)
    ultimately show ?thesis by simp
  next
    case False
    then have "sm_drop_old L rs y = Some y"
      by (subst sm_drop_old.simps) auto
    with "1.prems"(2) have "y1 = y"
      by simp
    moreover from False "1.prems"(1) have "drop_old L rs s = s"
      by (subst drop_old.simps) (auto simp: summarises_free summarises_def)
    ultimately show ?thesis using "1.prems"(1) by simp
  qed
qed


lemma fill_record_word_outside:
  assumes "fill_record L m r rs plen e = Some m'"
    and "a + sizeof_size_t \<le> r \<or> r + sizeof_netlog_log + plen \<le> a"
  shows "load_size_t m' a = load_size_t m a"
proof (rule load_size_t_cong)
  fix i assume "a \<le> i" "i < a + 8"
  with assms(2) have "i < r \<or> r + sizeof_netlog_log + plen \<le> i"
    by (auto simp: sizeof_size_t_def)
  with assms(1) show "m' i = m i"
    by (rule fill_record_outside)
qed

lemma le_enc_zero: "le_enc k 0 = replicate k 0"
  by (induction k) auto

lemma sentinel_mem_words:
  assumes "list_all (\<lambda>(a, v). load_size_t (log_buf s) a = v) ws"
  shows "list_all (\<lambda>(a, v). load_size_t (sentinel_mem L rs s) a = v)
           (if must_wrap L rs s
            then (log_next_idx s, 0) # filter (apart (log_next_idx s) sizeof_size_t) ws
            else ws)"
proof (cases "must_wrap L rs s")
  case False
  with assms show ?thesis by (simp add: sentinel_mem_def)
next
  case True
  have "load_size_t (mem_write (log_buf s) (log_next_idx s) (le_enc 8 0)) (log_next_idx s) = 0"
    by (rule load_size_t_write_same) simp
  moreover have "load_size_t (mem_write (log_buf s) (log_next_idx s) (le_enc 8 0)) a = v"
    if "(a, v) \<in> set ws" and "apart (log_next_idx s) sizeof_size_t (a, v)" for a v
  proof -
    from that(2) have "a + 8 \<le> log_next_idx s \<or> log_next_idx s + length (le_enc 8 0) \<le> a"
      by (simp add: apart_def sizeof_size_t_def)
    then have "load_size_t (mem_write (log_buf s) (log_next_idx s) (le_enc 8 0)) a
        = load_size_t (log_buf s) a"
      by (rule load_size_t_write_other)
    with assms that(1) show ?thesis
      by (auto simp: list_all_iff)
  qed
  ultimately show ?thesis
    using True by (auto simp: sentinel_mem_def sizeof_size_t_def list_all_iff)
qed

lemma sm_store_record_sound:
  assumes ok: "arena_ok L" and sum: "summarises y s"
    and inv: "log_next_idx s + sizeof_size_t \<le> L"
    and step: "sm_store_record L e y = Some y'"
  shows "\<exists>s' ns. store_record L e s = Some (s', ns) \<and> summarises y' s' \<and>
                 log_next_idx s' + sizeof_size_t \<le> L"
proof -
  let ?rs = "record_size L (ev_path e)"
  let ?plen = "stored_path_len L (ev_path e)"
  let ?r = "record_idx L ?rs s"
  let ?s1 = "drop_old L ?rs s"
  from step obtain y1 where y1: "sm_drop_old L ?rs y = Some y1"
    by (auto simp: sm_store_record_def Let_def split: option.splits)
  with sum have s1: "summarises y1 ?s1"
    by (rule sm_drop_old_sound)
  then have same: "sm_next_idx y1 = log_next_idx s" "sm_next_seq y1 = log_next_seq s"
      "sm_first_seq y1 = log_first_seq ?s1" "sm_first_idx y1 = log_first_idx ?s1"
    by (simp_all add: summarises_def drop_old_frame)
  from s1 have known: "list_all (\<lambda>(a, v). load_size_t (log_buf s) a = v) (sm_words y1)"
    by (simp add: summarises_def drop_old_frame)
  define ws where "ws = (if must_wrap L ?rs s
      then (log_next_idx s, 0) # filter (apart (log_next_idx s) sizeof_size_t) (sm_words y1)
      else sm_words y1)"
  have ws: "list_all (\<lambda>(a, v). load_size_t (sentinel_mem L ?rs s) a = v) ws"
    unfolding ws_def using known by (rule sentinel_mem_words)
  from step y1 have "Some (y1\<lparr> sm_next_idx := u32 (?r + ?rs),
      sm_next_seq := sm_next_seq y1 + 1,
      sm_words := (?r + off_len, ?rs) # (?r + off_nsec, unat (ev_clock e))
                  # filter (apart ?r ?rs) ws,
      sm_zero_from := max (sm_zero_from y1) (?r + ?rs) \<rparr>) = Some y'"
    by (simp only: sm_store_record_def Let_def option.case ws_def record_idx_def must_wrap_def
          same(1) [symmetric])
  then have y': "y' = y1\<lparr> sm_next_idx := u32 (?r + ?rs),
      sm_next_seq := sm_next_seq y1 + 1,
      sm_words := (?r + off_len, ?rs) # (?r + off_nsec, unat (ev_clock e))
                  # filter (apart ?r ?rs) ws,
      sm_zero_from := max (sm_zero_from y1) (?r + ?rs) \<rparr>"
    by (simp only: option.inject)
  from ok inv obtain m' where
    m': "fill_record L (sentinel_mem L ?rs s) ?r ?rs ?plen e = Some m'"
    and eff: "store_record L e s =
       Some (?s1\<lparr> log_buf := m', log_next_idx := ?r + ?rs, log_next_seq := log_next_seq s + 1 \<rparr>,
             if truncating L (strlen (ev_path e)) then [Warning_troncating_path] else [])"
    by (rule store_record_effect)
  have fits: "?r + ?rs + sizeof_size_t \<le> L"
    by (rule record_idx_fits [OF ok])
  have "L < 2 ^ 32"
    using ok by (simp add: arena_ok_def)
  with fits have small: "?rs < 2 ^ 64" "?plen < 2 ^ 64" "u32 (?r + ?rs) = ?r + ?rs"
    using record_size_ge [of L "ev_path e"] by (simp_all add: u32_def)
  have new: "load_size_t m' (?r + off_len) = ?rs" "load_size_t m' (?r + off_path_len) = ?plen"
      "load_size_t m' (?r + off_nsec) = unat (ev_clock e)"
    using m' small(1,2) by (rule fill_record_words)+
  have old: "load_size_t m' a = v" if "(a, v) \<in> set ws" and "apart ?r ?rs (a, v)" for a v
  proof -
    from that(2) have "a + sizeof_size_t \<le> ?r \<or> ?r + sizeof_netlog_log + ?plen \<le> a"
      using record_size_ge [of L "ev_path e"] by (auto simp: apart_def)
    with m' have "load_size_t m' a = load_size_t (sentinel_mem L ?rs s) a"
      by (rule fill_record_word_outside)
    with ws that(1) show ?thesis
      by (auto simp: list_all_iff)
  qed
  from s1 have zero: "\<forall>i\<ge>sm_zero_from y1. log_buf s i = 0"
    by (simp add: summarises_def drop_old_frame)
  have still: "m' i = 0" if "sm_zero_from y1 \<le> i" and "?r + ?rs \<le> i" for i
  proof -
    from that(2) have "i < ?r \<or> ?r + sizeof_netlog_log + ?plen \<le> i"
      using record_size_ge [of L "ev_path e"] by simp
    with m' have "m' i = sentinel_mem L ?rs s i"
      by (rule fill_record_outside)
    also have "\<dots> = 0"
      using zero that(1) by (auto simp: sentinel_mem_def mem_write_apply le_enc_zero)
    finally show ?thesis .
  qed
  have "summarises y' (?s1\<lparr> log_buf := m', log_next_idx := ?r + ?rs,
                             log_next_seq := log_next_seq s + 1 \<rparr>)"
    using new(1,3) old still by (auto simp: y' summarises_def same small(3) list_all_iff)
  with eff fits show ?thesis by simp
qed

lemma sm_appends_sound:
  assumes "arena_ok L"
  shows "summarises y s \<Longrightarrow> log_next_idx s + sizeof_size_t \<le> L \<Longrightarrow>
         sm_appends L es y = Some y' \<Longrightarrow>
         \<exists>s'. appends L es s = Some s' \<and> summarises y' s' \<and> log_next_idx s' + sizeof_size_t \<le> L"
proof (induction es arbitrary: y s)
  case Nil
  then show ?case by simp
next
  case (Cons e es)
  from Cons.prems(3) obtain y1 where y1: "sm_store_record L e y = Some y1"
    and rest: "sm_appends L es y1 = Some y'"
    by (auto split: option.splits)
  from assms Cons.prems(1,2) y1 obtain s1 ns where
    s1: "store_record L e s = Some (s1, ns)" "summarises y1 s1" "log_next_idx s1 + sizeof_size_t \<le> L"
    by (blast dest: sm_store_record_sound)
  from Cons.IH [OF s1(2,3) rest] s1(1) show ?case by simp
qed

lemma summarises_init: "summarises init_summary init_store"
  by (simp add: summarises_def init_summary_def init_store_def)

lemma appends_append:
  "appends L (xs @ ys) s = (case appends L xs s of None \<Rightarrow> None | Some s' \<Rightarrow> appends L ys s')"
  by (induction xs arbitrary: s) (auto split: option.splits)

lemma unat_seq_Suc:
  fixes a b :: "64 word"
  assumes "a < b"
  shows "unat (a + 1) = unat a + 1"
proof -
  from assms have "unat a < unat b"
    by (simp add: word_less_nat_alt)
  moreover have "unat b < 2 ^ LENGTH(64)"
    by (rule unsigned_less)
  ultimately have "unat a + unat (1 :: 64 word) < 2 ^ LENGTH(64)"
    by simp
  then show ?thesis
    by (simp only: unat_add_lem [THEN iffD1] unat_1)
qed

lemma drop_old_first_idx:
  "log_first_idx s < 2 ^ 32 \<Longrightarrow> log_first_idx (drop_old L rs s) < 2 ^ 32"
proof (induction L rs s rule: drop_old.induct)
  case (1 L rs s)
  show ?case
  proof (cases "log_first_seq s < log_next_seq s \<and> \<not> log_free L s > rs + sizeof_size_t")
    case True
    then have eq: "drop_old L rs s = drop_old L rs (drop_first s)"
      by (subst drop_old.simps) simp
    have "next_record (log_buf s) (log_first_idx s) < 2 ^ 32"
      by (simp add: next_record_def u32_def Let_def)
    then have "log_first_idx (drop_old L rs (drop_first s)) < 2 ^ 32"
      using True by (intro "1.IH") (simp_all add: drop_first_def)
    then show ?thesis
      by (simp add: eq)
  next
    case False
    then have "drop_old L rs s = s"
      by (subst drop_old.simps) auto
    with "1.prems" show ?thesis by simp
  qed
qed

lemma drop_old_first_seq:
  "log_first_seq s \<le> log_next_seq s \<Longrightarrow> log_first_seq (drop_old L rs s) \<le> log_next_seq s"
proof (induction L rs s rule: drop_old.induct)
  case (1 L rs s)
  show ?case
  proof (cases "log_first_seq s < log_next_seq s \<and> \<not> log_free L s > rs + sizeof_size_t")
    case True
    then have eq: "drop_old L rs s = drop_old L rs (drop_first s)"
      by (subst drop_old.simps) simp
    from True have "log_first_seq s + 1 \<le> log_next_seq s"
      by (simp add: inc_le)
    then have "log_first_seq (drop_old L rs (drop_first s)) \<le> log_next_seq (drop_first s)"
      using True by (intro "1.IH") (simp_all add: drop_first_def)
    then show ?thesis
      by (simp add: eq drop_first_def)
  next
    case False
    then have "drop_old L rs s = s"
      by (subst drop_old.simps) auto
    with "1.prems" show ?thesis by simp
  qed
qed

lemma store_record_inv:
  assumes ok: "arena_ok L" and inv: "log_next_idx s + sizeof_size_t \<le> L"
    and idx: "log_first_idx s < 2 ^ 32"
  shows "\<exists>s' ns. store_record L e s = Some (s', ns) \<and>
           log_next_idx s' + sizeof_size_t \<le> L \<and> log_first_idx s' < 2 ^ 32 \<and>
           log_next_seq s' = log_next_seq s + 1 \<and> first_read s' = first_read s \<and>
           log_first_seq s' = log_first_seq (drop_old L (record_size L (ev_path e)) s)"
proof -
  from ok inv obtain m' where
    "store_record L e s =
       Some ((drop_old L (record_size L (ev_path e)) s)
               \<lparr> log_buf := m',
                 log_next_idx := record_idx L (record_size L (ev_path e)) s + record_size L (ev_path e),
                 log_next_seq := log_next_seq s + 1 \<rparr>,
             if truncating L (strlen (ev_path e)) then [Warning_troncating_path] else [])"
    by (rule store_record_effect)
  moreover have "record_idx L (record_size L (ev_path e)) s + record_size L (ev_path e)
      + sizeof_size_t \<le> L"
    by (rule record_idx_fits [OF ok])
  moreover have "log_first_idx (drop_old L (record_size L (ev_path e)) s) < 2 ^ 32"
    using idx by (rule drop_old_first_idx)
  ultimately show ?thesis
    by (simp add: drop_old_frame)
qed

lemma appends_inv:
  assumes ok: "arena_ok L"
  shows "log_next_idx s + sizeof_size_t \<le> L \<Longrightarrow> log_first_idx s < 2 ^ 32 \<Longrightarrow>
         \<exists>s'. appends L es s = Some s' \<and> log_next_idx s' + sizeof_size_t \<le> L \<and>
              log_first_idx s' < 2 ^ 32 \<and> first_read s' = first_read s \<and>
              log_next_seq s' = log_next_seq s + of_nat (length es)"
proof (induction es arbitrary: s)
  case Nil
  then show ?case by simp
next
  case (Cons e es)
  from store_record_inv [OF ok Cons.prems, of e] obtain s1 ns where
    s1: "store_record L e s = Some (s1, ns)" "log_next_idx s1 + sizeof_size_t \<le> L"
      "log_first_idx s1 < 2 ^ 32" "log_next_seq s1 = log_next_seq s + 1"
      "first_read s1 = first_read s"
    by blast
  from Cons.IH [OF s1(2,3)] s1(1,4,5) show ?case
    by (auto simp: add.assoc)
qed

lemma appends_seq_inv:
  assumes ok: "arena_ok L"
  shows "log_next_idx s + sizeof_size_t \<le> L \<Longrightarrow> log_first_idx s < 2 ^ 32 \<Longrightarrow>
         log_first_seq s \<le> log_next_seq s \<Longrightarrow> unat (log_next_seq s) + length es < 2 ^ 64 \<Longrightarrow>
         appends L es s = Some s' \<Longrightarrow>
         log_first_seq s' \<le> log_next_seq s' \<and> unat (log_next_seq s') = unat (log_next_seq s) + length es"
proof (induction es arbitrary: s)
  case Nil
  then show ?case by simp
next
  case (Cons e es)
  from store_record_inv [OF ok Cons.prems(1,2), of e] obtain s1 ns where
    s1: "store_record L e s = Some (s1, ns)" "log_next_idx s1 + sizeof_size_t \<le> L"
      "log_first_idx s1 < 2 ^ 32" "log_next_seq s1 = log_next_seq s + 1"
      "log_first_seq s1 = log_first_seq (drop_old L (record_size L (ev_path e)) s)"
    by blast
  have "unat (log_next_seq s) + unat (1 :: 64 word) < 2 ^ LENGTH(64)"
    using Cons.prems(4) by simp
  then have un: "unat (log_next_seq s + 1) = unat (log_next_seq s) + 1"
    by (simp only: unat_add_lem [THEN iffD1] unat_1)
  have "log_first_seq s1 \<le> log_next_seq s"
    using Cons.prems(3) by (simp add: s1(5) drop_old_first_seq)
  then have "unat (log_first_seq s1) \<le> unat (log_next_seq s1)"
    using un by (simp add: word_le_nat_alt s1(4))
  then have le: "log_first_seq s1 \<le> log_next_seq s1"
    by (simp add: word_le_nat_alt)
  from Cons.prems(5) s1(1) have rest: "appends L es s1 = Some s'"
    by simp
  have "unat (log_next_seq s1) + length es < 2 ^ 64"
    using Cons.prems(4) un by (simp add: s1(4))
  from Cons.IH [OF s1(2,3) le this rest] show ?case
    by (simp add: s1(4) un)
qed

lemma init_store_inv:
  "log_next_idx init_store + sizeof_size_t \<le> L \<longleftrightarrow> sizeof_size_t \<le> L"
  "log_first_idx init_store < 2 ^ 32"
  by (simp_all add: init_store_def)

lemma arena_ok_sentinel: "arena_ok L \<Longrightarrow> sizeof_size_t \<le> L"
  by (simp add: arena_ok_def)

lemma reachable_inv:
  assumes "arena_ok L" and "appends L es init_store = Some s"
  shows "log_next_idx s + sizeof_size_t \<le> L" and "log_first_idx s < 2 ^ 32"
    and "first_read s" and "log_next_seq s = of_nat (length es)"
proof -
  have "log_next_idx init_store + sizeof_size_t \<le> L"
    using assms(1) by (simp add: init_store_inv arena_ok_sentinel)
  from appends_inv [OF assms(1) this init_store_inv(2), of es] assms(2)
  show "log_next_idx s + sizeof_size_t \<le> L" and "log_first_idx s < 2 ^ 32"
    and "first_read s" and "log_next_seq s = of_nat (length es)"
    by (auto simp: init_store_def)
qed

lemma appends_total:
  assumes "arena_ok L"
  shows "\<exists>s. appends L es init_store = Some s"
proof -
  have "log_next_idx init_store + sizeof_size_t \<le> L"
    using assms by (simp add: init_store_inv arena_ok_sentinel)
  from appends_inv [OF assms this init_store_inv(2), of es] show ?thesis
    by blast
qed

text \<open>C10\<close>

theorem store_record_in_bounds:
  assumes "arena_ok L"
  shows "\<exists>s. appends L es init_store = Some s \<and>
    (must_wrap L (record_size L (ev_path e)) s \<longrightarrow> log_next_idx s + sizeof_size_t \<le> L) \<and>
    record_idx L (record_size L (ev_path e)) s + record_size L (ev_path e) \<le> L \<and>
    (\<exists>s' ns. store_record L e s = Some (s', ns) \<and>
       (\<forall>i. (i < record_idx L (record_size L (ev_path e)) s \<or>
             record_idx L (record_size L (ev_path e)) s + record_size L (ev_path e) \<le> i) \<and>
            \<not> (must_wrap L (record_size L (ev_path e)) s \<and>
               log_next_idx s \<le> i \<and> i < log_next_idx s + sizeof_size_t)
            \<longrightarrow> log_buf s' i = log_buf s i))"
proof -
  let ?rs = "record_size L (ev_path e)"
  from assms obtain s where s: "appends L es init_store = Some s"
    using appends_total by blast
  with assms have inv: "log_next_idx s + sizeof_size_t \<le> L"
    by (rule reachable_inv)
  let ?r = "record_idx L ?rs s"
  from assms inv obtain m' where
    m': "fill_record L (sentinel_mem L ?rs s) ?r ?rs (stored_path_len L (ev_path e)) e = Some m'"
    and eff: "store_record L e s =
       Some ((drop_old L ?rs s)\<lparr> log_buf := m', log_next_idx := ?r + ?rs,
                                  log_next_seq := log_next_seq s + 1 \<rparr>,
             if truncating L (strlen (ev_path e)) then [Warning_troncating_path] else [])"
    by (rule store_record_effect)
  have "m' i = log_buf s i"
    if "i < ?r \<or> ?r + ?rs \<le> i"
      and "\<not> (must_wrap L ?rs s \<and> log_next_idx s \<le> i \<and> i < log_next_idx s + sizeof_size_t)"
    for i
  proof -
    from that(1) have "i < ?r \<or> ?r + sizeof_netlog_log + stored_path_len L (ev_path e) \<le> i"
      using record_size_ge [of L "ev_path e"] by auto
    with m' have "m' i = sentinel_mem L ?rs s i"
      by (rule fill_record_outside)
    also have "\<dots> = log_buf s i"
      using that(2) by (auto simp: sentinel_mem_def mem_write_apply)
    finally show ?thesis .
  qed
  with s eff inv record_idx_fits(1) [OF assms, of "ev_path e" s] show ?thesis
    by simp
qed

theorem store_record_in_bounds_witness:
  "arena_ok 4096 \<and>
   record_idx 4096 (record_size 4096 (ev_path (sample 256 0))) init_store
     + record_size 4096 (ev_path (sample 256 0)) \<le> 4096 \<and>
   (\<exists>s' ns. store_record 4096 (sample 256 0) init_store = Some (s', ns))"
proof -
  have ok: "arena_ok 4096"
    by (simp add: arena_ok_def sizeof_netlog_log_def LOG_ALIGN_def sizeof_size_t_def)
  from store_record_in_bounds [OF ok, of "[]" "sample 256 0"]
  have "record_idx 4096 (record_size 4096 (ev_path (sample 256 0))) init_store
            + record_size 4096 (ev_path (sample 256 0)) \<le> 4096 \<and>
          (\<exists>s' ns. store_record 4096 (sample 256 0) init_store = Some (s', ns))"
    by simp blast
  with ok show ?thesis
    by simp
qed

lemma sub_mod_plain:
  fixes a b m :: nat
  assumes "b \<le> a" and "a < m"
  shows "(a + m - b) mod m = a - b"
proof -
  from assms(1) have e: "a + m - b = (a - b) + m"
    by arith
  have "(a + m - b) mod m = ((a - b) + m) mod m"
    by (simp only: e)
  also have "\<dots> = (a - b) mod m"
    by (rule mod_add_self2)
  also have "\<dots> = a - b"
    using assms(2) by (intro mod_less) arith
  finally show ?thesis .
qed

lemma sub_u32_plain: "b \<le> a \<Longrightarrow> a < 2 ^ 32 \<Longrightarrow> sub_u32 a b = a - b"
  unfolding sub_u32_def by (rule sub_mod_plain)

lemma log_free_plain:
  assumes "L < 2 ^ 32" and "log_next_idx s \<le> L" and "log_first_idx s < 2 ^ 32"
  shows "log_free L s = plain_free L s"
  using assms by (simp add: log_free_def plain_free_def sub_u32_plain)

lemma drop_old_unfold:
  "drop_old L rs s = (if must_drop L rs s then drop_old L rs (drop_first s) else s)"
  by (subst drop_old.simps) (auto simp: must_drop_def)

lemma drop_old_funpow:
  "\<exists>k. drop_old L rs s = (drop_first ^^ k) s \<and>
       (\<forall>j<k. must_drop L rs ((drop_first ^^ j) s)) \<and>
       \<not> must_drop L rs ((drop_first ^^ k) s)"
proof (induction L rs s rule: drop_old.induct)
  case (1 L rs s)
  show ?case
  proof (cases "must_drop L rs s")
    case False
    then have "drop_old L rs s = (drop_first ^^ 0) s"
      by (subst drop_old_unfold) simp
    with False show ?thesis
      by (intro exI [of _ 0]) simp
  next
    case True
    then have "log_first_seq s < log_next_seq s" "\<not> rs + sizeof_size_t < log_free L s"
      by (simp_all add: must_drop_def)
    from "1.IH" [OF this] obtain k where
      k: "drop_old L rs (drop_first s) = (drop_first ^^ k) (drop_first s)"
        "\<forall>j<k. must_drop L rs ((drop_first ^^ j) (drop_first s))"
        "\<not> must_drop L rs ((drop_first ^^ k) (drop_first s))"
      by blast
    have "drop_old L rs s = (drop_first ^^ Suc k) s"
      using True k(1) by (subst drop_old_unfold) (simp add: funpow_swap1)
    moreover have "must_drop L rs ((drop_first ^^ j) s)" if "j < Suc k" for j
    proof (cases j)
      case 0
      with True show ?thesis by simp
    next
      case (Suc j')
      with that k(2) show ?thesis by (simp add: funpow_swap1)
    qed
    moreover have "\<not> must_drop L rs ((drop_first ^^ Suc k) s)"
      using k(3) by (simp add: funpow_swap1)
    ultimately show ?thesis
      by blast
  qed
qed

lemma funpow_drop_first_frame:
  "log_buf ((drop_first ^^ k) s) = log_buf s \<and> log_next_idx ((drop_first ^^ k) s) = log_next_idx s \<and>
   log_next_seq ((drop_first ^^ k) s) = log_next_seq s"
  by (induction k) (simp_all add: drop_first_def)

lemma funpow_drop_first_idx:
  "log_first_idx s < 2 ^ 32 \<Longrightarrow> log_first_idx ((drop_first ^^ k) s) < 2 ^ 32"
  by (induction k) (simp_all add: drop_first_def next_record_def u32_def Let_def)

text \<open>C1\<close>

theorem eviction_loop:
  assumes "arena_ok L" and "appends L es init_store = Some s"
  shows "\<exists>k s' ns.
     store_record L e s = Some (s', ns) \<and>
     log_first_seq s' = log_first_seq ((drop_first ^^ k) s) \<and>
     log_first_idx s' = log_first_idx ((drop_first ^^ k) s) \<and>
     (\<forall>j<k. must_drop L (record_size L (ev_path e)) ((drop_first ^^ j) s)) \<and>
     \<not> must_drop L (record_size L (ev_path e)) ((drop_first ^^ k) s) \<and>
     (\<forall>j. log_free L ((drop_first ^^ j) s) = plain_free L ((drop_first ^^ j) s))"
proof -
  let ?rs = "record_size L (ev_path e)"
  from assms have inv: "log_next_idx s + sizeof_size_t \<le> L" "log_first_idx s < 2 ^ 32"
    by (rule reachable_inv)+
  from assms(1) have L: "L < 2 ^ 32"
    by (simp add: arena_ok_def)
  obtain k where k: "drop_old L ?rs s = (drop_first ^^ k) s"
      "\<forall>j<k. must_drop L ?rs ((drop_first ^^ j) s)"
      "\<not> must_drop L ?rs ((drop_first ^^ k) s)"
    using drop_old_funpow by blast
  from assms(1) inv(1) obtain m' where
    "store_record L e s =
       Some ((drop_old L ?rs s)\<lparr> log_buf := m', log_next_idx := record_idx L ?rs s + ?rs,
                                  log_next_seq := log_next_seq s + 1 \<rparr>,
             if truncating L (strlen (ev_path e)) then [Warning_troncating_path] else [])"
    by (rule store_record_effect)
  moreover have "log_free L ((drop_first ^^ j) s) = plain_free L ((drop_first ^^ j) s)" for j
  proof (rule log_free_plain [OF L])
    show "log_next_idx ((drop_first ^^ j) s) \<le> L"
      using inv(1) by (simp add: funpow_drop_first_frame)
    show "log_first_idx ((drop_first ^^ j) s) < 2 ^ 32"
      using inv(2) by (rule funpow_drop_first_idx)
  qed
  ultimately show ?thesis
    using k by (intro exI [of _ k]) simp
qed

lemma strlen_c_string: "strlen p = length (c_string p)"
  by (simp add: strlen_def c_string_def)

lemma take_c_string: "n \<le> strlen p \<Longrightarrow> take n p = take n (c_string p)"
proof -
  assume n: "n \<le> strlen p"
  have "take n p = take n (c_string p @ dropWhile (\<lambda>b. b \<noteq> 0) p)"
    by (simp add: c_string_def)
  also have "\<dots> = take n (c_string p)"
    using n by (simp add: strlen_c_string)
  finally show ?thesis .
qed

lemma takeWhile_take_c_string:
  "takeWhile (\<lambda>b. b \<noteq> 0) (take n (c_string p)) = take n (c_string p)"
proof -
  have "\<forall>b \<in> set (take n (c_string p)). b \<noteq> 0"
    by (auto simp: c_string_def dest!: in_set_takeD set_takeWhileD)
  then show ?thesis
    by (simp add: takeWhile_eq_all_conv)
qed

lemma arena_div: "arena_ok L \<Longrightarrow> L div 16 < 2 ^ 28"
proof -
  assume "arena_ok L"
  then have "L < 2 ^ 28 * 16"
    by (simp add: arena_ok_def)
  then show ?thesis
    by (rule less_mult_imp_div_less)
qed

lemma arena_div_INT_MAX: "arena_ok L \<Longrightarrow> L div 16 \<le> INT_MAX"
  using arena_div [of L] by (simp add: INT_MAX_def)

lemma path_threshold_arena: "arena_ok L \<Longrightarrow> path_threshold L = L div 16"
  using arena_div_INT_MAX [of L] by (simp add: path_threshold_def)

lemma stored_path_len_min:
  "arena_ok L \<Longrightarrow> stored_path_len L p = min (length (c_string p)) (path_threshold L)"
  using arena_div_INT_MAX [of L]
  by (auto simp: stored_path_len_def truncating_def path_threshold_arena strlen_c_string)

lemma truncating_iff:
  "arena_ok L \<Longrightarrow> truncating L (strlen p) \<longleftrightarrow> length (c_string p) > path_threshold L"
  using arena_div_INT_MAX [of L]
  by (auto simp: truncating_def path_threshold_arena strlen_c_string)

text \<open>C9\<close>

theorem path_truncation:
  assumes "arena_ok L" and "appends L es init_store = Some s"
  shows "\<exists>s' ns. store_record L e s = Some (s', ns) \<and>
     path_threshold L = L div 16 \<and>
     ns = (if length (c_string (ev_path e)) > path_threshold L then [Warning_troncating_path] else []) \<and>
     path_len (load_record (log_buf s') (record_idx L (record_size L (ev_path e)) s))
       = min (length (c_string (ev_path e))) (path_threshold L) \<and>
     mem_read (log_buf s') (log_path (record_idx L (record_size L (ev_path e)) s))
        (min (length (c_string (ev_path e))) (path_threshold L))
       = take (path_threshold L) (c_string (ev_path e)) \<and>
     path_text (log_buf s') (log_path (record_idx L (record_size L (ev_path e)) s))
        (path_len (load_record (log_buf s') (record_idx L (record_size L (ev_path e)) s)))
       = map (\<lambda>b. char_of (unat b)) (take (path_threshold L) (c_string (ev_path e)))"
proof -
  let ?p = "ev_path e"
  let ?rs = "record_size L ?p"
  let ?r = "record_idx L ?rs s"
  let ?plen = "stored_path_len L ?p"
  from assms have inv: "log_next_idx s + sizeof_size_t \<le> L"
    by (rule reachable_inv)
  from assms(1) inv obtain m' where
    m': "fill_record L (sentinel_mem L ?rs s) ?r ?rs ?plen e = Some m'"
    and eff: "store_record L e s =
       Some ((drop_old L ?rs s)\<lparr> log_buf := m', log_next_idx := ?r + ?rs,
                                  log_next_seq := log_next_seq s + 1 \<rparr>,
             if truncating L (strlen ?p) then [Warning_troncating_path] else [])"
    by (rule store_record_effect)
  have plen: "?plen = min (length (c_string ?p)) (path_threshold L)"
    using assms(1) by (rule stored_path_len_min)
  have L: "L < 2 ^ 32"
    using assms(1) by (simp add: arena_ok_def)
  have "?r + ?rs \<le> L"
    by (rule record_idx_fits [OF assms(1)])
  with L have small: "?rs < 2 ^ 64" "?plen < 2 ^ 64"
    using record_size_ge [of L ?p] by simp_all
  have "?plen \<le> L div 16"
    by (rule stored_path_len_le)
  with arena_div [OF assms(1)] have prec: "?plen mod 2 ^ 32 = ?plen" "?plen < 2 ^ 31"
    by simp_all
  have field: "path_len (load_record m' ?r) = ?plen"
    using fill_record_words(2) [OF m' small] by (simp add: load_record_def)
  have "?plen \<le> strlen ?p"
    by (simp add: plen strlen_c_string)
  then have tk: "take ?plen ?p = take (path_threshold L) (c_string ?p)"
    by (simp add: take_c_string plen strlen_c_string min_def)
  have "?plen \<le> length ?p"
    by (rule stored_path_len_le_length)
  then have "length (take ?plen ?p) = ?plen"
    by simp
  with fill_record_path [OF m'] have bytes: "mem_read m' (log_path ?r) ?plen = take ?plen ?p"
    by simp
  have rendered: "path_text m' (log_path ?r) ?plen
      = map (\<lambda>b. char_of (unat b)) (take (path_threshold L) (c_string ?p))"
    using prec by (simp add: path_text_def bytes tk takeWhile_take_c_string)
  from field have "path_len (load_record m' ?r) = min (length (c_string ?p)) (path_threshold L)"
    by (simp only: plen)
  moreover from bytes have "mem_read m' (log_path ?r) ?plen = take (path_threshold L) (c_string ?p)"
    by (simp only: tk)
  then have "mem_read m' (log_path ?r) (min (length (c_string ?p)) (path_threshold L))
      = take (path_threshold L) (c_string ?p)"
    by (simp only: plen)
  moreover from rendered field have "path_text m' (log_path ?r) (path_len (load_record m' ?r))
      = map (\<lambda>b. char_of (unat b)) (take (path_threshold L) (c_string ?p))"
    by (simp only:)
  ultimately show ?thesis
    using eff by (simp add: path_threshold_arena [OF assms(1)] truncating_iff [OF assms(1)])
qed


lemma arena_ok_4096: "arena_ok 4096"
  by (simp add: arena_ok_def sizeof_netlog_log_def LOG_ALIGN_def sizeof_size_t_def)

lemma c_string_sample: "c_string (ev_path (sample n t)) = replicate n 97"
  by (simp add: c_string_def sample_def)

lemma record_size_sample:
  "n \<le> L div 16 \<Longrightarrow> L div 16 \<le> INT_MAX \<Longrightarrow>
   record_size L (ev_path (sample n t)) = 81 + n + (8 - (81 + n) mod 8) mod 8"
  by (simp add: record_size_def stored_path_len_def truncating_def strlen_c_string
      c_string_sample align_up_eq sizeof_netlog_log_def)

lemma record_size_sample_long:
  "L div 16 < n \<Longrightarrow> L div 16 \<le> INT_MAX \<Longrightarrow>
   record_size L (ev_path (sample n t)) = 81 + L div 16 + (8 - (81 + L div 16) mod 8) mod 8"
  by (simp add: record_size_def stored_path_len_def truncating_def strlen_c_string
      c_string_sample align_up_eq sizeof_netlog_log_def path_threshold_def)

theorem path_truncation_witness:
  "arena_ok 4096 \<and> appends 4096 [] init_store = Some init_store \<and>
   length (c_string (ev_path (sample 2560 0))) = 10 * path_threshold 4096 \<and>
   (\<exists>s' ns. store_record 4096 (sample 2560 0) init_store = Some (s', ns) \<and>
      ns = [Warning_troncating_path] \<and>
      path_len (load_record (log_buf s') 0) = 256 \<and>
      path_text (log_buf s') (log_path 0) (path_len (load_record (log_buf s') 0))
        = replicate 256 CHR ''a'')"
proof -
  have "record_size 4096 (ev_path (sample 2560 0)) = 344"
    by (simp add: record_size_sample_long INT_MAX_def)
  then have idx: "record_idx 4096 (record_size 4096 (ev_path (sample 2560 0))) init_store = 0"
    by (simp add: record_idx_def must_wrap_def init_store_def sizeof_size_t_def)
  have thr: "path_threshold 4096 = 256"
    by (simp add: path_threshold_def INT_MAX_def)
  have a: "char_of (97 :: nat) = CHR ''a''"
    by (simp add: char_of_def bit_Suc bit_0)
  from path_truncation [OF arena_ok_4096, of "[]" init_store "sample 2560 0"]
  show ?thesis
    by (auto simp: arena_ok_4096 idx thr c_string_sample a)
qed

section \<open>Seeking\<close>

text \<open>
  C8, as the specification states it: a seek succeeds only for the targets Oldest
  (\<^verbatim>\<open>SEEK_SET\<close>) and Newest (\<^verbatim>\<open>SEEK_END\<close>), and every other request fails with an
  unsupported-seek error. The code accepts a third target: \<^verbatim>\<open>SEEK_CUR\<close> with offset 0
  returns 0 and leaves the cursor where it is.
\<close>

theorem llseek_cur_succeeds:
  "SEEK_CUR \<noteq> SEEK_SET \<and> SEEK_CUR \<noteq> SEEK_END \<and>
   netlog_log_llseek init_store (Some \<lparr> log_curr_seq = 0, log_curr_idx = 0 \<rparr>) 0 SEEK_CUR
     = (Inr 0, Some \<lparr> log_curr_seq = 0, log_curr_idx = 0 \<rparr>)"
  by (simp add: netlog_log_llseek_def SEEK_CUR_def SEEK_SET_def SEEK_END_def)

text \<open>
  C8, amended: on an open file a seek returns 0 exactly when the offset is 0 and the
  target is \<^verbatim>\<open>SEEK_SET\<close>, \<^verbatim>\<open>SEEK_CUR\<close> or \<^verbatim>\<open>SEEK_END\<close>. \<^verbatim>\<open>SEEK_SET\<close> puts the cursor on
  the first record stored, \<^verbatim>\<open>SEEK_END\<close> on the next record to store, \<^verbatim>\<open>SEEK_CUR\<close> leaves it
  alone. A non-zero offset fails with \<^verbatim>\<open>ESPIPE\<close>, any other target with \<^verbatim>\<open>EINVAL\<close>, and a
  failed seek does not move the cursor. (The model runs each call in one step, which
  is what the spin lock gives the code.)
\<close>

theorem llseek_targets:
  "(fst (netlog_log_llseek s (Some d) offset whence) = Inr 0)
     = (offset = 0 \<and> whence \<in> {SEEK_SET, SEEK_CUR, SEEK_END}) \<and>
   (offset = 0 \<and> whence = SEEK_SET \<longrightarrow>
      snd (netlog_log_llseek s (Some d) offset whence)
        = Some \<lparr> log_curr_seq = log_first_seq s, log_curr_idx = log_first_idx s \<rparr>) \<and>
   (offset = 0 \<and> whence = SEEK_END \<longrightarrow>
      snd (netlog_log_llseek s (Some d) offset whence)
        = Some \<lparr> log_curr_seq = log_next_seq s, log_curr_idx = log_next_idx s \<rparr>) \<and>
   (offset = 0 \<and> whence = SEEK_CUR \<longrightarrow>
      snd (netlog_log_llseek s (Some d) offset whence) = Some d) \<and>
   (offset \<noteq> 0 \<longrightarrow> netlog_log_llseek s (Some d) offset whence = (Inl ESPIPE, Some d)) \<and>
   (offset = 0 \<and> whence \<notin> {SEEK_SET, SEEK_CUR, SEEK_END} \<longrightarrow>
      netlog_log_llseek s (Some d) offset whence = (Inl EINVAL, Some d))"
  by (auto simp: netlog_log_llseek_def SEEK_CUR_def SEEK_SET_def SEEK_END_def)

theorem llseek_targets_witness:
  "fst (netlog_log_llseek init_store (Some \<lparr> log_curr_seq = 7, log_curr_idx = 8 \<rparr>) 0 SEEK_END)
     = Inr 0 \<and>
   snd (netlog_log_llseek init_store (Some \<lparr> log_curr_seq = 7, log_curr_idx = 8 \<rparr>) 0 SEEK_SET)
     = Some \<lparr> log_curr_seq = 0, log_curr_idx = 0 \<rparr> \<and>
   snd (netlog_log_llseek init_store (Some \<lparr> log_curr_seq = 7, log_curr_idx = 8 \<rparr>) 0 SEEK_END)
     = Some \<lparr> log_curr_seq = 0, log_curr_idx = 0 \<rparr> \<and>
   snd (netlog_log_llseek init_store (Some \<lparr> log_curr_seq = 7, log_curr_idx = 8 \<rparr>) 0 SEEK_CUR)
     = Some \<lparr> log_curr_seq = 7, log_curr_idx = 8 \<rparr> \<and>
   netlog_log_llseek init_store (Some \<lparr> log_curr_seq = 7, log_curr_idx = 8 \<rparr>) 5 SEEK_SET
     = (Inl ESPIPE, Some \<lparr> log_curr_seq = 7, log_curr_idx = 8 \<rparr>) \<and>
   netlog_log_llseek init_store (Some \<lparr> log_curr_seq = 7, log_curr_idx = 8 \<rparr>) 0 3
     = (Inl EINVAL, Some \<lparr> log_curr_seq = 7, log_curr_idx = 8 \<rparr>)"
  using llseek_targets [of init_store "\<lparr> log_curr_seq = 7, log_curr_idx = 8 \<rparr>" 0 SEEK_END]
    llseek_targets [of init_store "\<lparr> log_curr_seq = 7, log_curr_idx = 8 \<rparr>" 0 SEEK_SET]
    llseek_targets [of init_store "\<lparr> log_curr_seq = 7, log_curr_idx = 8 \<rparr>" 0 SEEK_CUR]
    llseek_targets [of init_store "\<lparr> log_curr_seq = 7, log_curr_idx = 8 \<rparr>" 5 SEEK_SET]
    llseek_targets [of init_store "\<lparr> log_curr_seq = 7, log_curr_idx = 8 \<rparr>" 0 3]
  by (simp add: init_store_def SEEK_CUR_def SEEK_SET_def SEEK_END_def)

end
